theory Spec2Isabelle
  imports Main
begin

section \<open>The pseudo Linux shell: data model\<close>

text \<open>
  The repository holds two variants of one simulator, \<^verbatim>\<open>linux-commands.c\<close> and
  \<^verbatim>\<open>L2.c\<close>. Both keep a tree of \<^verbatim>\<open>struct Dir\<close> nodes on the C heap; every node is
  obtained from \<^verbatim>\<open>malloc\<close> and none is released before \<^verbatim>\<open>exit\<close>.

  Conventions of the embedding.
  \<^item> The heap is an arena: a list of directory nodes. A pointer \<^verbatim>\<open>struct Dir *\<close> is an
    index into the arena (\<open>addr\<close>), \<^verbatim>\<open>NULL\<close> is \<open>None\<close>. Reading through an index
    outside the arena is the fault \<open>InvalidPointer\<close>.
  \<^item> A C string is the list of its bytes before the terminating NUL, so
    \<^verbatim>\<open>strcmp(a, b) == 0\<close> is \<open>a = b\<close>, and
    \<^verbatim>\<open>strncpy(dst, src, n); dst[n] = 0\<close> stores \<open>take n src\<close>.
  \<^item> An array with its element count (\<^verbatim>\<open>files\<close>/\<^verbatim>\<open>file_count\<close>,
    \<^verbatim>\<open>subdirs\<close>/\<^verbatim>\<open>subdir_count\<close>) is the list of its first \<open>count\<close> elements.
  \<^item> Every command returns what it wrote to standard output (a list of lines)
    together with the error kind of the branch taken, and the heap it leaves.
  \<^item> Functions of \<^verbatim>\<open>linux-commands.c\<close> keep their names; the functions of
    \<^verbatim>\<open>L2.c\<close> carry the suffix \<open>_L2\<close> where the two files share a name.
\<close>

type_synonym addr = nat

definition NAME_LEN :: nat where "NAME_LEN = 32"
definition MAX_FILES :: nat where "MAX_FILES = 16"
definition MAX_SUBDIRS :: nat where "MAX_SUBDIRS = 16"
definition MAX_DEPTH :: nat where "MAX_DEPTH = 64"
definition PERM_LEN :: nat where "PERM_LEN = 8"

text \<open>\<^verbatim>\<open>struct File\<close>: \<^verbatim>\<open>name\<close>, \<^verbatim>\<open>size\<close>, \<^verbatim>\<open>perm\<close>, \<^verbatim>\<open>content\<close>.\<close>

record File =
  f_name :: string
  f_size :: int
  f_perm :: string
  f_content :: string

text \<open>\<^verbatim>\<open>struct Dir\<close>: \<^verbatim>\<open>name\<close>, \<^verbatim>\<open>parent\<close>, \<^verbatim>\<open>files[file_count]\<close>,
  \<^verbatim>\<open>subdirs[subdir_count]\<close>.\<close>

record Dir =
  d_name :: string
  d_parent :: "addr option"
  d_files :: "File list"
  d_subdirs :: "addr list"

type_synonym heap = "Dir list"

datatype fault = InvalidPointer | ArrayOverflow | UseAfterFree

text \<open>The error kinds of the specification; each failing branch of a command is
  tagged with its kind and carries the line it prints.\<close>

datatype error =
  UsageError | NameCollision | CapacityExceeded | NotFound | AllocationFailure | CommandNotFound

datatype outcome = Ok "string list" | Err error string

definition deref :: "heap \<Rightarrow> addr \<Rightarrow> fault + Dir" where
  "deref h p = (if p < length h then Inr (h ! p) else Inl InvalidPointer)"

definition and_then :: "fault + 'a \<Rightarrow> ('a \<Rightarrow> fault + 'b) \<Rightarrow> fault + 'b" where
  "and_then m f = (case m of Inl e \<Rightarrow> Inl e | Inr x \<Rightarrow> f x)"

text \<open>\<^verbatim>\<open>strncpy(dst, src, NAME_LEN - 1); dst[NAME_LEN - 1] = '\0';\<close>\<close>

definition copy_name :: "string \<Rightarrow> string" where
  "copy_name src = take (NAME_LEN - 1) src"

text \<open>\<^verbatim>\<open>'%s'\<close> in a format string.\<close>

definition quoted :: "string \<Rightarrow> string" where
  "quoted s = [CHR 0x27] @ s @ [CHR 0x27]"

section \<open>Lookup\<close>

text \<open>\<^verbatim>\<open>for (i = 0; i < d->file_count; i++) if (strcmp(d->files[i].name, name) == 0) return i;
  return -1;\<close>\<close>

fun find_file_from :: "File list \<Rightarrow> string \<Rightarrow> int \<Rightarrow> int" where
  "find_file_from [] name i = - 1"
| "find_file_from (f # fs) name i =
     (if f_name f = name then i else find_file_from fs name (i + 1))"

definition find_file_index :: "heap \<Rightarrow> addr \<Rightarrow> string \<Rightarrow> fault + int" where
  "find_file_index h d name =
     and_then (deref h d) (\<lambda>dir. Inr (find_file_from (d_files dir) name 0))"

text \<open>\<^verbatim>\<open>for (i = 0; i < d->subdir_count; i++)
  if (strcmp(d->subdirs[i]->name, name) == 0) return i; return -1;\<close>\<close>

fun find_subdir_from :: "heap \<Rightarrow> addr list \<Rightarrow> string \<Rightarrow> int \<Rightarrow> fault + int" where
  "find_subdir_from h [] name i = Inr (- 1)"
| "find_subdir_from h (p # ps) name i =
     and_then (deref h p) (\<lambda>c.
       if d_name c = name then Inr i else find_subdir_from h ps name (i + 1))"

definition find_subdir_index :: "heap \<Rightarrow> addr \<Rightarrow> string \<Rightarrow> fault + int" where
  "find_subdir_index h d name =
     and_then (deref h d) (\<lambda>dir. find_subdir_from h (d_subdirs dir) name 0)"

section \<open>Allocation\<close>

text \<open>\<^verbatim>\<open>malloc\<close> hands out the next cell of the arena and fails (returns \<^verbatim>\<open>NULL\<close>) once
  the arena holds \<open>lim\<close> nodes; \<open>lim\<close> is the memory the environment grants.\<close>

definition malloc :: "nat \<Rightarrow> heap \<Rightarrow> addr option" where
  "malloc lim h = (if length h < lim then Some (length h) else None)"

text \<open>\<^verbatim>\<open>create_dir\<close> of \<^verbatim>\<open>linux-commands.c\<close>; \<^verbatim>\<open>create_dir_node\<close> of \<^verbatim>\<open>L2.c\<close> has the
  same body.\<close>

definition create_dir :: "nat \<Rightarrow> heap \<Rightarrow> string \<Rightarrow> addr option \<Rightarrow> (addr \<times> heap) option" where
  "create_dir lim h name parent =
     (case malloc lim h of
        None \<Rightarrow> None
      | Some d \<Rightarrow>
          Some (d, h @ [\<lparr>d_name = copy_name name, d_parent = parent,
                         d_files = [], d_subdirs = []\<rparr>]))"

definition create_dir_node :: "nat \<Rightarrow> heap \<Rightarrow> string \<Rightarrow> addr option \<Rightarrow> (addr \<times> heap) option" where
  "create_dir_node = create_dir"

section \<open>pwd\<close>

text \<open>The walk of \<^verbatim>\<open>linux-commands.c\<close>:
  \<^verbatim>\<open>while (cwd) { parts[depth++] = cwd->name; cwd = cwd->parent; }\<close>
  with \<^verbatim>\<open>const char *parts[64]\<close>. The list \<open>parts\<close> holds the \<open>depth\<close> entries written
  so far; a write at index 64 is outside the array.\<close>

function pwd_walk :: "heap \<Rightarrow> addr option \<Rightarrow> string list \<Rightarrow> fault + string list" where
  "pwd_walk h cwd parts =
     (case cwd of
        None \<Rightarrow> Inr parts
      | Some p \<Rightarrow>
          if 64 \<le> length parts then Inl ArrayOverflow
          else and_then (deref h p) (\<lambda>d. pwd_walk h (d_parent d) (parts @ [d_name d])))"
  by pat_completeness auto
termination
  by (relation "measure (\<lambda>(h, cwd, parts). 64 - length parts)") auto

text \<open>The walk of \<^verbatim>\<open>L2.c\<close>:
  \<^verbatim>\<open>while (p != NULL && depth < MAX_DEPTH) { parts[depth++] = p->name; p = p->parent; }\<close>\<close>

function pwd_walk_L2 :: "heap \<Rightarrow> addr option \<Rightarrow> string list \<Rightarrow> fault + string list" where
  "pwd_walk_L2 h p parts =
     (case p of
        None \<Rightarrow> Inr parts
      | Some a \<Rightarrow>
          if length parts < MAX_DEPTH
          then and_then (deref h a) (\<lambda>d. pwd_walk_L2 h (d_parent d) (parts @ [d_name d]))
          else Inr parts)"
  by pat_completeness auto
termination
  by (relation "measure (\<lambda>(h, p, parts). MAX_DEPTH - length parts)") auto

text \<open>The output loop, the same in both files:
  \<^verbatim>\<open>for (i = depth - 1; i >= 0; i--) {
    if (i == 0 && strcmp(parts[i], "/") == 0) printf("/");
    else { printf("%s", parts[i]); if (i > 0) printf("/"); } }\<close>
  \<open>pwd_print parts k\<close> is what the iterations \<open>i = k - 1, ..., 0\<close> print.\<close>

fun pwd_print :: "string list \<Rightarrow> nat \<Rightarrow> string" where
  "pwd_print parts 0 = []"
| "pwd_print parts (Suc i) =
     (if i = 0 \<and> parts ! i = ''/'' then ''/''
      else parts ! i @ (if 0 < i then ''/'' else []))
     @ pwd_print parts i"

definition pwd_cmd :: "heap \<Rightarrow> addr \<Rightarrow> fault + outcome" where
  "pwd_cmd h cwd =
     and_then (deref h cwd) (\<lambda>d.
       if d_parent d = None then Inr (Ok [''/''])
       else and_then (pwd_walk h (Some cwd) []) (\<lambda>parts.
         Inr (Ok [pwd_print parts (length parts)])))"

definition pwd_cmd_L2 :: "heap \<Rightarrow> addr \<Rightarrow> fault + outcome" where
  "pwd_cmd_L2 h cwd =
     and_then (deref h cwd) (\<lambda>d.
       if d_parent d = None then Inr (Ok [''/''])
       else and_then (pwd_walk_L2 h (Some cwd) []) (\<lambda>parts.
         Inr (Ok [pwd_print parts (length parts)])))"

section \<open>ls\<close>

text \<open>\<^verbatim>\<open>%d\<close> and the padded fields \<^verbatim>\<open>%4d\<close>, \<^verbatim>\<open>%4s\<close> of \<^verbatim>\<open>printf\<close>.\<close>

fun show_nat :: "nat \<Rightarrow> string" where
  "show_nat n =
     (if n < 10 then [''0123456789'' ! n]
      else show_nat (n div 10) @ [''0123456789'' ! (n mod 10)])"

definition show_int :: "int \<Rightarrow> string" where
  "show_int i = (if i < 0 then ''-'' @ show_nat (nat (- i)) else show_nat (nat i))"

definition pad4 :: "string \<Rightarrow> string" where
  "pad4 s = replicate (4 - length s) CHR '' '' @ s"

text \<open>The first loop of \<^verbatim>\<open>ls_cmd\<close> in \<^verbatim>\<open>linux-commands.c\<close>: one line per sub-directory,
  \<^verbatim>\<open>"drwx ---- %s/"\<close> in the long format and \<^verbatim>\<open>"%s/"\<close> otherwise.\<close>

fun ls_subdirs :: "heap \<Rightarrow> bool \<Rightarrow> addr list \<Rightarrow> fault + string list" where
  "ls_subdirs h longfmt [] = Inr []"
| "ls_subdirs h longfmt (p # ps) =
     and_then (deref h p) (\<lambda>sd.
       and_then (ls_subdirs h longfmt ps) (\<lambda>rest.
         Inr ((if longfmt then ''drwx ---- '' @ d_name sd @ ''/'' else d_name sd @ ''/'') # rest)))"

text \<open>The same loop in \<^verbatim>\<open>L2.c\<close>: \<^verbatim>\<open>printf("drwx %4s %s/\n", "-", sd->name)\<close> in the
  long format.\<close>

fun ls_subdirs_L2 :: "heap \<Rightarrow> bool \<Rightarrow> addr list \<Rightarrow> fault + string list" where
  "ls_subdirs_L2 h longfmt [] = Inr []"
| "ls_subdirs_L2 h longfmt (p # ps) =
     and_then (deref h p) (\<lambda>sd.
       and_then (ls_subdirs_L2 h longfmt ps) (\<lambda>rest.
         Inr ((if longfmt then ''drwx '' @ pad4 ''-'' @ '' '' @ d_name sd @ ''/''
               else d_name sd @ ''/'') # rest)))"

text \<open>The second loop, the same in both files: \<^verbatim>\<open>"-%s %4d %s"\<close> of \<^verbatim>\<open>perm\<close>,
  \<^verbatim>\<open>size\<close>, \<^verbatim>\<open>name\<close> in the long format and \<^verbatim>\<open>"%s"\<close> of the name otherwise.\<close>

definition ls_file :: "bool \<Rightarrow> File \<Rightarrow> string" where
  "ls_file longfmt f =
     (if longfmt then ''-'' @ f_perm f @ '' '' @ pad4 (show_int (f_size f)) @ '' '' @ f_name f
      else f_name f)"

definition ls_cmd :: "heap \<Rightarrow> addr \<Rightarrow> string option \<Rightarrow> fault + outcome" where
  "ls_cmd h cwd opt =
     (let longfmt = (opt = Some ''-l'') in
      and_then (deref h cwd) (\<lambda>d.
        and_then (ls_subdirs h longfmt (d_subdirs d)) (\<lambda>dirs.
          Inr (Ok (dirs @ map (ls_file longfmt) (d_files d))))))"

text \<open>\<^verbatim>\<open>L2.c\<close> returns early on an empty directory:
  \<^verbatim>\<open>if (cwd->subdir_count == 0 && cwd->file_count == 0) { puts("ls: no entries"); return; }\<close>\<close>

definition ls_cmd_L2 :: "heap \<Rightarrow> addr \<Rightarrow> string option \<Rightarrow> fault + outcome" where
  "ls_cmd_L2 h cwd opt =
     and_then (deref h cwd) (\<lambda>d.
       if length (d_subdirs d) = 0 \<and> length (d_files d) = 0 then Inr (Ok [''ls: no entries''])
       else
         (let longfmt = (opt = Some ''-l'') in
          and_then (ls_subdirs_L2 h longfmt (d_subdirs d)) (\<lambda>dirs.
            Inr (Ok (dirs @ map (ls_file longfmt) (d_files d))))))"

section \<open>touch\<close>

text \<open>The entry \<^verbatim>\<open>touch_cmd\<close> writes at \<^verbatim>\<open>files[file_count++]\<close>: the name cut by
  \<^verbatim>\<open>strncpy\<close>, \<^verbatim>\<open>perm = "rw-"\<close>, \<^verbatim>\<open>size = 0\<close>, \<^verbatim>\<open>content[0] = '\0'\<close>.\<close>

definition new_file :: "string \<Rightarrow> File" where
  "new_file name = \<lparr>f_name = copy_name name, f_size = 0, f_perm = ''rw-'', f_content = []\<rparr>"

definition add_file :: "heap \<Rightarrow> addr \<Rightarrow> Dir \<Rightarrow> string \<Rightarrow> heap" where
  "add_file h cwd d name = h[cwd := d\<lparr>d_files := d_files d @ [new_file name]\<rparr>]"

text \<open>\<^verbatim>\<open>linux-commands.c\<close>: the argument check, then
  \<^verbatim>\<open>find_file_index(cwd, name) != -1 || find_subdir_index(cwd, name) != -1\<close>, then
  \<^verbatim>\<open>cwd->file_count >= MAX_FILES\<close>.\<close>

definition touch_cmd :: "heap \<Rightarrow> addr \<Rightarrow> string option \<Rightarrow> fault + (outcome \<times> heap)" where
  "touch_cmd h cwd arg =
     (case arg of
        None \<Rightarrow> Inr (Err UsageError ''usage: touch <name>'', h)
      | Some name \<Rightarrow>
          and_then (find_file_index h cwd name) (\<lambda>fi.
            if fi \<noteq> - 1 then Inr (Err NameCollision ''name already exists'', h)
            else and_then (find_subdir_index h cwd name) (\<lambda>si.
              if si \<noteq> - 1 then Inr (Err NameCollision ''name already exists'', h)
              else and_then (deref h cwd) (\<lambda>d.
                if MAX_FILES \<le> length (d_files d)
                then Inr (Err CapacityExceeded ''file limit reached'', h)
                else Inr (Ok [''file '' @ quoted name @ '' created''],
                          add_file h cwd d name)))))"

text \<open>\<^verbatim>\<open>L2.c\<close>: the argument check, then the file lookup, then the capacity check, then
  the sub-directory lookup.\<close>

definition touch_cmd_L2 :: "heap \<Rightarrow> addr \<Rightarrow> string option \<Rightarrow> fault + (outcome \<times> heap)" where
  "touch_cmd_L2 h cwd arg =
     (case arg of
        None \<Rightarrow> Inr (Err UsageError ''usage: touch <name>'', h)
      | Some name \<Rightarrow>
          and_then (find_file_index h cwd name) (\<lambda>fi.
            if fi \<noteq> - 1
            then Inr (Err NameCollision (''file '' @ quoted name @ '' already exists''), h)
            else and_then (deref h cwd) (\<lambda>d.
              if MAX_FILES \<le> length (d_files d)
              then Inr (Err CapacityExceeded ''file limit reached'', h)
              else and_then (find_subdir_index h cwd name) (\<lambda>si.
                if si \<noteq> - 1
                then Inr (Err NameCollision
                            (''name '' @ quoted name @ '' already used by directory''), h)
                else Inr (Ok [''file '' @ quoted name @ '' created''],
                          add_file h cwd d name)))))"

section \<open>rm\<close>

text \<open>\<^verbatim>\<open>for (i = idx; i < cwd->file_count - 1; i++) cwd->files[i] = cwd->files[i + 1];\<close>
  on the array of the first \<open>file_count\<close> entries.\<close>

function shift_down :: "File list \<Rightarrow> nat \<Rightarrow> File list" where
  "shift_down fs i =
     (if int i < int (length fs) - 1 then shift_down (fs[i := fs ! (i + 1)]) (i + 1) else fs)"
  by pat_completeness auto
termination
  by (relation "measure (\<lambda>(fs, i). length fs - i)") auto

text \<open>The loop followed by \<^verbatim>\<open>cwd->file_count--\<close>: the first \<open>file_count - 1\<close> entries
  remain.\<close>

definition remove_file :: "heap \<Rightarrow> addr \<Rightarrow> Dir \<Rightarrow> nat \<Rightarrow> heap" where
  "remove_file h cwd d idx =
     h[cwd := d\<lparr>d_files := take (length (d_files d) - 1) (shift_down (d_files d) idx)\<rparr>]"

text \<open>\<^verbatim>\<open>rm_cmd\<close> of \<^verbatim>\<open>linux-commands.c\<close> (\<^verbatim>\<open>if (idx < 0) { puts("no such file"); return; }\<close>).\<close>

definition rm_cmd :: "heap \<Rightarrow> addr \<Rightarrow> string option \<Rightarrow> fault + (outcome \<times> heap)" where
  "rm_cmd h cwd arg =
     (case arg of
        None \<Rightarrow> Inr (Err UsageError ''usage: rm <name>'', h)
      | Some name \<Rightarrow>
          and_then (find_file_index h cwd name) (\<lambda>idx.
            if idx < 0 then Inr (Err NotFound ''no such file'', h)
            else and_then (deref h cwd) (\<lambda>d.
              Inr (Ok [''file '' @ quoted name @ '' removed''],
                   remove_file h cwd d (nat idx)))))"

text \<open>\<^verbatim>\<open>rm_cmd\<close> of \<^verbatim>\<open>L2.c\<close> (\<^verbatim>\<open>if (idx >= 0) { ... } else { puts("no such file"); }\<close>).\<close>

definition rm_cmd_L2 :: "heap \<Rightarrow> addr \<Rightarrow> string option \<Rightarrow> fault + (outcome \<times> heap)" where
  "rm_cmd_L2 h cwd arg =
     (case arg of
        None \<Rightarrow> Inr (Err UsageError ''usage: rm <name>'', h)
      | Some name \<Rightarrow>
          and_then (find_file_index h cwd name) (\<lambda>idx.
            if 0 \<le> idx
            then and_then (deref h cwd) (\<lambda>d.
              Inr (Ok [''file '' @ quoted name @ '' removed''],
                   remove_file h cwd d (nat idx)))
            else Inr (Err NotFound ''no such file'', h)))"

section \<open>mv and chmod\<close>

text \<open>\<^verbatim>\<open>strncpy(cwd->files[idx].name, dst, NAME_LEN - 1); cwd->files[idx].name[NAME_LEN - 1] = '\0';\<close>\<close>

definition rename_file :: "heap \<Rightarrow> addr \<Rightarrow> Dir \<Rightarrow> nat \<Rightarrow> string \<Rightarrow> heap" where
  "rename_file h cwd d idx dst =
     h[cwd := d\<lparr>d_files := (d_files d)[idx := (d_files d ! idx)\<lparr>f_name := copy_name dst\<rparr>]\<rparr>]"

definition mv_cmd ::
  "heap \<Rightarrow> addr \<Rightarrow> string option \<Rightarrow> string option \<Rightarrow> fault + (outcome \<times> heap)" where
  "mv_cmd h cwd a b =
     (case (a, b) of
        (Some src, Some dst) \<Rightarrow>
          and_then (find_file_index h cwd src) (\<lambda>idx.
            if idx < 0 then Inr (Err NotFound ''source not found'', h)
            else and_then (find_file_index h cwd dst) (\<lambda>fi.
              if fi \<noteq> - 1 then Inr (Err NameCollision ''destination already exists'', h)
              else and_then (find_subdir_index h cwd dst) (\<lambda>si.
                if si \<noteq> - 1 then Inr (Err NameCollision ''destination already exists'', h)
                else and_then (deref h cwd) (\<lambda>d.
                  Inr (Ok [''renamed '' @ quoted src @ '' -> '' @ quoted dst],
                       rename_file h cwd d (nat idx) dst)))))
      | _ \<Rightarrow> Inr (Err UsageError ''usage: mv <old> <new>'', h))"

definition mv_cmd_L2 ::
  "heap \<Rightarrow> addr \<Rightarrow> string option \<Rightarrow> string option \<Rightarrow> fault + (outcome \<times> heap)" where
  "mv_cmd_L2 h cwd a b =
     (case (a, b) of
        (Some src, Some dst) \<Rightarrow>
          and_then (find_file_index h cwd src) (\<lambda>idx.
            if idx < 0 then Inr (Err NotFound (''mv: '' @ quoted src @ '' not found''), h)
            else and_then (find_file_index h cwd dst) (\<lambda>fi.
              if fi \<noteq> - 1
              then Inr (Err NameCollision (''mv: '' @ quoted dst @ '' already exists''), h)
              else and_then (find_subdir_index h cwd dst) (\<lambda>si.
                if si \<noteq> - 1
                then Inr (Err NameCollision
                            (''mv: name '' @ quoted dst @ '' already used by directory''), h)
                else and_then (deref h cwd) (\<lambda>d.
                  Inr (Ok [''file '' @ quoted src @ '' renamed to '' @ quoted dst],
                       rename_file h cwd d (nat idx) dst)))))
      | _ \<Rightarrow> Inr (Err UsageError ''usage: mv <old_name> <new_name>'', h))"

text \<open>\<^verbatim>\<open>chmod_cmd\<close> exists in \<^verbatim>\<open>L2.c\<close> only:
  \<^verbatim>\<open>strncpy(perm, mode, sizeof(perm) - 1); perm[sizeof(perm) - 1] = '\0';\<close>\<close>

definition chmod_cmd ::
  "heap \<Rightarrow> addr \<Rightarrow> string option \<Rightarrow> string option \<Rightarrow> fault + (outcome \<times> heap)" where
  "chmod_cmd h cwd a b =
     (case (a, b) of
        (Some mode, Some filename) \<Rightarrow>
          and_then (find_file_index h cwd filename) (\<lambda>idx.
            if idx < 0 then Inr (Err NotFound (''chmod: '' @ quoted filename @ '' not found''), h)
            else and_then (deref h cwd) (\<lambda>d.
              Inr (Ok [''permissions of '' @ quoted filename @ '' changed to '' @ quoted mode],
                   h[cwd := d\<lparr>d_files := (d_files d)[nat idx :=
                       (d_files d ! nat idx)\<lparr>f_perm := take (PERM_LEN - 1) mode\<rparr>]\<rparr>])))
      | _ \<Rightarrow> Inr (Err UsageError ''usage: chmod <mode> <filename>'', h))"

section \<open>mkdir\<close>

text \<open>\<^verbatim>\<open>cwd->subdirs[cwd->subdir_count++] = d;\<close>, read after \<^verbatim>\<open>create_dir\<close> has extended
  the arena.\<close>

definition add_subdir :: "heap \<Rightarrow> addr \<Rightarrow> addr \<Rightarrow> fault + heap" where
  "add_subdir h cwd d =
     and_then (deref h cwd) (\<lambda>c. Inr (h[cwd := c\<lparr>d_subdirs := d_subdirs c @ [d]\<rparr>]))"

text \<open>\<^verbatim>\<open>linux-commands.c\<close>: the argument check, the capacity check, then
  \<^verbatim>\<open>find_file_index(cwd, name) != -1 || find_subdir_index(cwd, name) != -1\<close>, then
  the allocation.\<close>

definition mkdir_cmd :: "nat \<Rightarrow> heap \<Rightarrow> addr \<Rightarrow> string option \<Rightarrow> fault + (outcome \<times> heap)" where
  "mkdir_cmd lim h cwd arg =
     (case arg of
        None \<Rightarrow> Inr (Err UsageError ''usage: mkdir <name>'', h)
      | Some name \<Rightarrow>
          and_then (deref h cwd) (\<lambda>c.
            if MAX_SUBDIRS \<le> length (d_subdirs c)
            then Inr (Err CapacityExceeded ''subdir limit reached'', h)
            else and_then (find_file_index h cwd name) (\<lambda>fi.
              if fi \<noteq> - 1 then Inr (Err NameCollision ''name already exists'', h)
              else and_then (find_subdir_index h cwd name) (\<lambda>si.
                if si \<noteq> - 1 then Inr (Err NameCollision ''name already exists'', h)
                else
                  (case create_dir lim h name (Some cwd) of
                     None \<Rightarrow> Inr (Err AllocationFailure ''memory error'', h)
                   | Some (d, h') \<Rightarrow>
                       and_then (add_subdir h' cwd d) (\<lambda>h''.
                         Inr (Ok [''directory '' @ quoted name @ '' created''], h'')))))))"

text \<open>\<^verbatim>\<open>L2.c\<close>: the argument check, the capacity check, then
  \<^verbatim>\<open>find_subdir_index(cwd, name) != -1 || find_file_index(cwd, name) != -1\<close>, then
  the allocation.\<close>

definition mkdir_cmd_L2 :: "nat \<Rightarrow> heap \<Rightarrow> addr \<Rightarrow> string option \<Rightarrow> fault + (outcome \<times> heap)" where
  "mkdir_cmd_L2 lim h cwd arg =
     (case arg of
        None \<Rightarrow> Inr (Err UsageError ''usage: mkdir <name>'', h)
      | Some name \<Rightarrow>
          and_then (deref h cwd) (\<lambda>c.
            if MAX_SUBDIRS \<le> length (d_subdirs c)
            then Inr (Err CapacityExceeded ''subdir limit reached'', h)
            else and_then (find_subdir_index h cwd name) (\<lambda>si.
              if si \<noteq> - 1
              then Inr (Err NameCollision (''name '' @ quoted name @ '' already exists''), h)
              else and_then (find_file_index h cwd name) (\<lambda>fi.
                if fi \<noteq> - 1
                then Inr (Err NameCollision (''name '' @ quoted name @ '' already exists''), h)
                else
                  (case create_dir_node lim h name (Some cwd) of
                     None \<Rightarrow> Inr (Err AllocationFailure ''mkdir: memory error'', h)
                   | Some (d, h') \<Rightarrow>
                       and_then (add_subdir h' cwd d) (\<lambda>h''.
                         Inr (Ok [''directory '' @ quoted name @ '' created''], h'')))))))"

section \<open>cd\<close>

text \<open>\<^verbatim>\<open>cd_cmd\<close> returns the new current directory. \<^verbatim>\<open>linux-commands.c\<close> tests
  \<^verbatim>\<open>"/"\<close>, \<^verbatim>\<open>"."\<close>, \<^verbatim>\<open>".."\<close> in this order and then looks the name up among the
  sub-directories.\<close>

definition cd_cmd :: "heap \<Rightarrow> addr \<Rightarrow> string option \<Rightarrow> addr \<Rightarrow> fault + (outcome \<times> addr)" where
  "cd_cmd h cwd arg root =
     (case arg of
        None \<Rightarrow> Inr (Err UsageError ''usage: cd <dir>'', cwd)
      | Some a \<Rightarrow>
          if a = ''/'' then Inr (Ok [], root)
          else if a = ''.'' then Inr (Ok [], cwd)
          else if a = ''..''
          then and_then (deref h cwd) (\<lambda>d.
                 Inr (Ok [], (case d_parent d of Some p \<Rightarrow> p | None \<Rightarrow> cwd)))
          else and_then (find_subdir_index h cwd a) (\<lambda>idx.
                 if 0 \<le> idx
                 then and_then (deref h cwd) (\<lambda>d. Inr (Ok [], d_subdirs d ! nat idx))
                 else Inr (Err NotFound ''no such directory'', cwd)))"

text \<open>\<^verbatim>\<open>L2.c\<close> tests \<^verbatim>\<open>"/"\<close>, \<^verbatim>\<open>".."\<close>, \<^verbatim>\<open>"."\<close> in this order.\<close>

definition cd_cmd_L2 :: "heap \<Rightarrow> addr \<Rightarrow> string option \<Rightarrow> addr \<Rightarrow> fault + (outcome \<times> addr)" where
  "cd_cmd_L2 h cwd arg root =
     (case arg of
        None \<Rightarrow> Inr (Err UsageError ''usage: cd <dir>'', cwd)
      | Some a \<Rightarrow>
          if a = ''/'' then Inr (Ok [], root)
          else if a = ''..''
          then and_then (deref h cwd) (\<lambda>d.
                 (case d_parent d of Some p \<Rightarrow> Inr (Ok [], p) | None \<Rightarrow> Inr (Ok [], cwd)))
          else if a = ''.'' then Inr (Ok [], cwd)
          else and_then (find_subdir_index h cwd a) (\<lambda>idx.
                 if 0 \<le> idx
                 then and_then (deref h cwd) (\<lambda>d. Inr (Ok [], d_subdirs d ! nat idx))
                 else Inr (Err NotFound (''cd: no such directory: '' @ a), cwd)))"

section \<open>The session\<close>

text \<open>The state of \<^verbatim>\<open>main\<close>: the heap and the local variables \<^verbatim>\<open>root\<close> and \<^verbatim>\<open>cwd\<close>.
  \<open>init\<close> is the state before the first prompt, after
  \<^verbatim>\<open>root = create_dir("/", NULL); cwd = root;\<close> has succeeded.\<close>

record state =
  heap :: heap
  root :: addr
  cwd :: addr

definition init :: state where
  "init = \<lparr>heap = [\<lparr>d_name = copy_name ''/'', d_parent = None, d_files = [], d_subdirs = []\<rparr>],
           root = 0, cwd = 0\<rparr>"

text \<open>One parsed input line: the command token and the argument tokens \<^verbatim>\<open>strtok\<close>
  found (\<open>None\<close> for a missing token). \<open>Other\<close> is any unrecognised command token.
  Empty lines, \<^verbatim>\<open>exit\<close> and the help line of \<^verbatim>\<open>L2.c\<close> are not commands of a script.\<close>

datatype cmd =
  Pwd
| Ls "string option"
| Touch "string option"
| Rm "string option"
| Mv "string option" "string option"
| Mkdir "string option"
| Cd "string option"
| Chmod "string option" "string option"
| Other

definition on_heap :: "state \<Rightarrow> fault + (outcome \<times> heap) \<Rightarrow> fault + (outcome \<times> state)" where
  "on_heap s r = and_then r (\<lambda>(out, h). Inr (out, s\<lparr>heap := h\<rparr>))"

text \<open>The dispatch of \<^verbatim>\<open>main\<close> in \<^verbatim>\<open>linux-commands.c\<close>, which knows no \<^verbatim>\<open>chmod\<close>.\<close>

fun exec :: "nat \<Rightarrow> cmd \<Rightarrow> state \<Rightarrow> fault + (outcome \<times> state)" where
  "exec lim Pwd s = and_then (pwd_cmd (heap s) (cwd s)) (\<lambda>out. Inr (out, s))"
| "exec lim (Ls opt) s = and_then (ls_cmd (heap s) (cwd s) opt) (\<lambda>out. Inr (out, s))"
| "exec lim (Touch a) s = on_heap s (touch_cmd (heap s) (cwd s) a)"
| "exec lim (Rm a) s = on_heap s (rm_cmd (heap s) (cwd s) a)"
| "exec lim (Mv a b) s = on_heap s (mv_cmd (heap s) (cwd s) a b)"
| "exec lim (Mkdir a) s = on_heap s (mkdir_cmd lim (heap s) (cwd s) a)"
| "exec lim (Cd a) s =
     and_then (cd_cmd (heap s) (cwd s) a (root s)) (\<lambda>(out, c). Inr (out, s\<lparr>cwd := c\<rparr>))"
| "exec lim (Chmod a b) s = Inr (Err CommandNotFound ''command not found'', s)"
| "exec lim Other s = Inr (Err CommandNotFound ''command not found'', s)"

text \<open>The dispatch of \<^verbatim>\<open>main\<close> in \<^verbatim>\<open>L2.c\<close>.\<close>

fun exec_L2 :: "nat \<Rightarrow> cmd \<Rightarrow> state \<Rightarrow> fault + (outcome \<times> state)" where
  "exec_L2 lim Pwd s = and_then (pwd_cmd_L2 (heap s) (cwd s)) (\<lambda>out. Inr (out, s))"
| "exec_L2 lim (Ls opt) s = and_then (ls_cmd_L2 (heap s) (cwd s) opt) (\<lambda>out. Inr (out, s))"
| "exec_L2 lim (Touch a) s = on_heap s (touch_cmd_L2 (heap s) (cwd s) a)"
| "exec_L2 lim (Rm a) s = on_heap s (rm_cmd_L2 (heap s) (cwd s) a)"
| "exec_L2 lim (Mv a b) s = on_heap s (mv_cmd_L2 (heap s) (cwd s) a b)"
| "exec_L2 lim (Mkdir a) s = on_heap s (mkdir_cmd_L2 lim (heap s) (cwd s) a)"
| "exec_L2 lim (Cd a) s =
     and_then (cd_cmd_L2 (heap s) (cwd s) a (root s)) (\<lambda>(out, c). Inr (out, s\<lparr>cwd := c\<rparr>))"
| "exec_L2 lim (Chmod a b) s = on_heap s (chmod_cmd (heap s) (cwd s) a b)"
| "exec_L2 lim Other s = Inr (Err CommandNotFound ''command not found'', s)"

text \<open>A script: the commands of the input lines in order, with what each printed.\<close>

fun run :: "nat \<Rightarrow> cmd list \<Rightarrow> state \<Rightarrow> fault + (outcome list \<times> state)" where
  "run lim [] s = Inr ([], s)"
| "run lim (c # cs) s =
     and_then (exec lim c s) (\<lambda>(out, s').
       and_then (run lim cs s') (\<lambda>(outs, s''). Inr (out # outs, s'')))"

fun run_L2 :: "nat \<Rightarrow> cmd list \<Rightarrow> state \<Rightarrow> fault + (outcome list \<times> state)" where
  "run_L2 lim [] s = Inr ([], s)"
| "run_L2 lim (c # cs) s =
     and_then (exec_L2 lim c s) (\<lambda>(out, s').
       and_then (run_L2 lim cs s') (\<lambda>(outs, s''). Inr (out # outs, s'')))"

section \<open>Well-formed states\<close>

text \<open>The names stored under a directory: of its files, of its sub-directories, and of
  both (the names of its direct children).\<close>

definition file_names :: "heap \<Rightarrow> addr \<Rightarrow> string list" where
  "file_names h p = map f_name (d_files (h ! p))"

definition dir_names :: "heap \<Rightarrow> addr \<Rightarrow> string list" where
  "dir_names h p = map (\<lambda>c. d_name (h ! c)) (d_subdirs (h ! p))"

definition child_names :: "heap \<Rightarrow> addr \<Rightarrow> string list" where
  "child_names h p = file_names h p @ dir_names h p"

text \<open>The shape every heap of a session has: each sub-directory pointer of a node \<open>p\<close>
  points into the arena, to a node allocated after \<open>p\<close> whose \<^verbatim>\<open>parent\<close> is \<open>p\<close>; a node
  with a \<^verbatim>\<open>NULL\<close> parent is the first node, and any other node is listed by its parent;
  no pointer is listed twice; every stored name fits its \<^verbatim>\<open>char[NAME_LEN]\<close>. Every state
  of a session has this shape, as is proved below.\<close>

definition wf_node :: "heap \<Rightarrow> addr \<Rightarrow> bool" where
  "wf_node h p \<longleftrightarrow>
     list_all (\<lambda>c. p < c \<and> c < length h \<and> d_parent (h ! c) = Some p) (d_subdirs (h ! p)) \<and>
     (case d_parent (h ! p) of
        None \<Rightarrow> p = 0
      | Some q \<Rightarrow> q < p \<and> p \<in> set (d_subdirs (h ! q))) \<and>
     distinct (d_subdirs (h ! p)) \<and>
     length (d_name (h ! p)) < NAME_LEN \<and>
     list_all (\<lambda>f. length (f_name f) < NAME_LEN) (d_files (h ! p))"

definition wf_heap :: "heap \<Rightarrow> bool" where
  "wf_heap h \<longleftrightarrow> h \<noteq> [] \<and> list_all (wf_node h) [0..<length h]"

definition wf_state :: "state \<Rightarrow> bool" where
  "wf_state s \<longleftrightarrow> wf_heap (heap s) \<and> root s = 0 \<and> cwd s < length (heap s)"

text \<open>No two direct children of a directory share a name, whatever their kinds.\<close>

definition unique_names :: "heap \<Rightarrow> bool" where
  "unique_names h \<longleftrightarrow> list_all (\<lambda>p. distinct (child_names h p)) [0..<length h]"

section \<open>Heaps the commands leave\<close>

text \<open>Names for the heaps the successful branches build: the files of one node
  replaced, a node appended by \<^verbatim>\<open>mkdir\<close>; and for the index the lookups return on a hit.\<close>

definition set_files :: "heap \<Rightarrow> addr \<Rightarrow> File list \<Rightarrow> heap" where
  "set_files h c fs = h[c := (h ! c)\<lparr>d_files := fs\<rparr>]"

definition mk_heap :: "heap \<Rightarrow> addr \<Rightarrow> string \<Rightarrow> heap" where
  "mk_heap h c n =
     (h @ [\<lparr>d_name = copy_name n, d_parent = Some c, d_files = [], d_subdirs = []\<rparr>])
       [c := (h ! c)\<lparr>d_subdirs := d_subdirs (h ! c) @ [length h]\<rparr>]"

definition file_idx :: "heap \<Rightarrow> addr \<Rightarrow> string \<Rightarrow> nat" where
  "file_idx h c n = length (takeWhile (\<lambda>f. f_name f \<noteq> n) (d_files (h ! c)))"

definition dir_idx :: "heap \<Rightarrow> addr \<Rightarrow> string \<Rightarrow> nat" where
  "dir_idx h c n = length (takeWhile (\<lambda>p. d_name (h ! p) \<noteq> n) (d_subdirs (h ! c)))"

definition rm_heap :: "heap \<Rightarrow> addr \<Rightarrow> string \<Rightarrow> heap" where
  "rm_heap h c n =
     h[c := (h ! c)\<lparr>d_files := take (file_idx h c n) (d_files (h ! c)) @
                                 drop (Suc (file_idx h c n)) (d_files (h ! c))\<rparr>]"

section \<open>Teardown\<close>

text \<open>\<^verbatim>\<open>free_dir\<close> of \<^verbatim>\<open>linux-commands.c\<close>:
  \<^verbatim>\<open>if (!d) return; for (i = 0; i < d->subdir_count; i++) free_dir(d->subdirs[i]); free(d);\<close>
  The recursion follows pointers of the heap, so it is bounded by fuel: each call and
  each test of the loop condition spends one unit, and \<open>None\<close> is a run that has
  not finished within the fuel given. The list \<open>freed\<close> records the calls of
  \<^verbatim>\<open>free\<close> in order; reading a node or freeing it after it has been freed is the fault
  \<open>UseAfterFree\<close>. \<open>free_loop k h d i freed\<close> is the loop from index \<open>i\<close> on, reading
  \<^verbatim>\<open>d->subdir_count\<close> and \<^verbatim>\<open>d->subdirs[i]\<close> anew at every iteration.\<close>

fun free_dir :: "nat \<Rightarrow> heap \<Rightarrow> addr option \<Rightarrow> addr list \<Rightarrow> (fault + addr list) option"
  and free_loop :: "nat \<Rightarrow> heap \<Rightarrow> addr \<Rightarrow> nat \<Rightarrow> addr list \<Rightarrow> (fault + addr list) option"
where
  "free_dir 0 h d freed = None"
| "free_dir (Suc k) h None freed = Some (Inr freed)"
| "free_dir (Suc k) h (Some d) freed =
     (case free_loop k h d 0 freed of
        Some (Inr freed') \<Rightarrow>
          if d \<in> set freed' then Some (Inl UseAfterFree)
          else if d < length h then Some (Inr (freed' @ [d]))
          else Some (Inl InvalidPointer)
      | r \<Rightarrow> r)"
| "free_loop 0 h d i freed = None"
| "free_loop (Suc k) h d i freed =
     (if d \<in> set freed then Some (Inl UseAfterFree)
      else
        (case deref h d of
           Inl e \<Rightarrow> Some (Inl e)
         | Inr dir \<Rightarrow>
             if i < length (d_subdirs dir)
             then (case free_dir k h (Some (d_subdirs dir ! i)) freed of
                     Some (Inr freed') \<Rightarrow> free_loop k h d (i + 1) freed'
                   | r \<Rightarrow> r)
             else Some (Inr freed)))"

text \<open>\<^verbatim>\<open>free_dir_recursive\<close> of \<^verbatim>\<open>L2.c\<close> has the same body.\<close>

definition free_dir_recursive ::
  "nat \<Rightarrow> heap \<Rightarrow> addr option \<Rightarrow> addr list \<Rightarrow> (fault + addr list) option" where
  "free_dir_recursive = free_dir"

text \<open>The order the specification asks of \<open>destroySubtree\<close>, in its own words: every
  descendant, children before parent (post-order). It is defined on heaps whose
  sub-directory pointers lead to later cells, and is \<open>[d]\<close> elsewhere.\<close>

function postorder :: "heap \<Rightarrow> addr \<Rightarrow> addr list" where
  "postorder h d =
     (if d < length h \<and> list_all (\<lambda>c. d < c) (d_subdirs (h ! d))
      then concat (map (postorder h) (d_subdirs (h ! d))) @ [d]
      else [d])"
  by pat_completeness auto
termination
  by (relation "measure (\<lambda>(h, d). length h - d)") (auto simp: list_all_iff)

text \<open>Every node of a trace is released after all its sub-directories.\<close>

definition children_first :: "heap \<Rightarrow> addr list \<Rightarrow> bool" where
  "children_first h tr \<longleftrightarrow>
     list_all (\<lambda>i. list_all (\<lambda>c. c \<in> set (take i tr)) (d_subdirs (h ! (tr ! i)))) [0..<length tr]"

section \<open>Scripts\<close>

text \<open>The session \<^verbatim>\<open>mkdir a; cd a; mkdir b; cd b; pwd\<close>.\<close>

definition nested_pwd :: "cmd list" where
  "nested_pwd = [Mkdir (Some ''a''), Cd (Some ''a''), Mkdir (Some ''b''), Cd (Some ''b''), Pwd]"

text \<open>\<open>descend n\<close> is \<^verbatim>\<open>mkdir a; cd a\<close> repeated \<open>n\<close> times.\<close>

fun descend :: "nat \<Rightarrow> cmd list" where
  "descend 0 = []"
| "descend (Suc n) = Mkdir (Some ''a'') # Cd (Some ''a'') # descend n"

text \<open>A batch of names given to \<^verbatim>\<open>touch\<close> one after the other is fresh when each name,
  at the time it is given, is the name of no entry stored so far.\<close>

fun fresh_batch :: "string list \<Rightarrow> string list \<Rightarrow> bool" where
  "fresh_batch stored [] = True"
| "fresh_batch stored (n # ns) = (n \<notin> set stored \<and> fresh_batch (stored @ [copy_name n]) ns)"

text \<open>The names a command asks the tree to store: the argument of \<^verbatim>\<open>touch\<close> and
  \<^verbatim>\<open>mkdir\<close>, the second argument of \<^verbatim>\<open>mv\<close>.\<close>

fun stored_arg :: "cmd \<Rightarrow> string option" where
  "stored_arg (Touch a) = a"
| "stored_arg (Mkdir a) = a"
| "stored_arg (Mv a b) = b"
| "stored_arg c = None"

definition short_arg :: "cmd \<Rightarrow> bool" where
  "short_arg c = (case stored_arg c of None \<Rightarrow> True | Some n \<Rightarrow> length n < NAME_LEN)"

text \<open>The commands that change the tree or the current directory.\<close>

fun tree_cmd :: "cmd \<Rightarrow> bool" where
  "tree_cmd (Touch a) = True"
| "tree_cmd (Mkdir a) = True"
| "tree_cmd (Mv a b) = True"
| "tree_cmd (Rm a) = True"
| "tree_cmd (Cd a) = True"
| "tree_cmd c = False"

text \<open>The state after \<^verbatim>\<open>touch old; mkdir d\<close> at the root.\<close>

definition sample_state :: state where
  "sample_state =
     \<lparr>heap = [\<lparr>d_name = ''/'', d_parent = None, d_files = [new_file ''old''], d_subdirs = [1]\<rparr>,
              \<lparr>d_name = ''d'', d_parent = Some 0, d_files = [], d_subdirs = []\<rparr>],
      root = 0, cwd = 0\<rparr>"

text \<open>Two names of 32 bytes that differ in the last byte only.\<close>

definition long_x :: string where
  "long_x = replicate 31 CHR ''a'' @ ''x''"

definition long_y :: string where
  "long_y = replicate 31 CHR ''a'' @ ''y''"

text \<open>Seventeen names for \<^verbatim>\<open>touch\<close>: \<^verbatim>\<open>f1\<close>, ..., \<^verbatim>\<open>f17\<close>.\<close>

definition batch17 :: "string list" where
  "batch17 = map (\<lambda>i. ''f'' @ show_nat i) [1..<18]"

text \<open>The script that gives each name of a list to \<^verbatim>\<open>touch\<close>.\<close>

definition touch_all :: "string list \<Rightarrow> cmd list" where
  "touch_all names = map (\<lambda>n. Touch (Some n)) names"

definition created :: "string \<Rightarrow> outcome" where
  "created n = Ok [''file '' @ quoted n @ '' created'']"

text \<open>The root after \<^verbatim>\<open>touch x\<close> and \<^verbatim>\<open>touch f1\<close>, ..., \<^verbatim>\<open>touch f15\<close>.\<close>

definition crowded :: state where
  "crowded = init\<lparr>heap := set_files (heap init) 0 (map new_file (''x'' # take 15 batch17))\<rparr>"

text \<open>The script \<^verbatim>\<open>mkdir d1; ...; mkdir d16; touch f; mkdir f\<close>.\<close>

definition full_then_clash :: "cmd list" where
  "full_then_clash =
     map (\<lambda>i. Mkdir (Some (''d'' @ show_nat i))) [1..<17] @ [Touch (Some ''f''), Mkdir (Some ''f'')]"

text \<open>\<open>released_after h pre tr\<close>: along the trace \<open>tr\<close>, started after the nodes \<open>pre\<close>
  have been released, every node is released after all its sub-directories.\<close>

fun released_after :: "heap \<Rightarrow> addr list \<Rightarrow> addr list \<Rightarrow> bool" where
  "released_after h pre [] = True"
| "released_after h pre (x # xs) =
     (list_all (\<lambda>c. c \<in> set pre) (d_subdirs (h ! x)) \<and> released_after h (pre @ [x]) xs)"

text \<open>The heap after \<^verbatim>\<open>mkdir a; mkdir b; cd a; mkdir c; mkdir d; cd ..; cd b; mkdir e;
  mkdir f\<close>: a tree of depth 3 and branching factor 2.\<close>

definition tree7 :: "cmd list" where
  "tree7 = [Mkdir (Some ''a''), Mkdir (Some ''b''), Cd (Some ''a''), Mkdir (Some ''c''),
            Mkdir (Some ''d''), Cd (Some ''..''), Cd (Some ''b''), Mkdir (Some ''e''),
            Mkdir (Some ''f'')]"

definition heap7 :: heap where
  "heap7 =
     [\<lparr>d_name = ''/'', d_parent = None, d_files = [], d_subdirs = [1, 2]\<rparr>,
      \<lparr>d_name = ''a'', d_parent = Some 0, d_files = [], d_subdirs = [3, 4]\<rparr>,
      \<lparr>d_name = ''b'', d_parent = Some 0, d_files = [], d_subdirs = [5, 6]\<rparr>,
      \<lparr>d_name = ''c'', d_parent = Some 1, d_files = [], d_subdirs = []\<rparr>,
      \<lparr>d_name = ''d'', d_parent = Some 1, d_files = [], d_subdirs = []\<rparr>,
      \<lparr>d_name = ''e'', d_parent = Some 2, d_files = [], d_subdirs = []\<rparr>,
      \<lparr>d_name = ''f'', d_parent = Some 2, d_files = [], d_subdirs = []\<rparr>]"

section \<open>Basic facts\<close>

declare pwd_walk.simps [simp del] pwd_walk_L2.simps [simp del] shift_down.simps [simp del]

lemma and_then_Inr [simp]: "and_then (Inr x) f = f x"
  by (simp add: and_then_def)

lemma and_then_Inl [simp]: "and_then (Inl e) f = Inl e"
  by (simp add: and_then_def)

lemma deref_in [simp]: "p < length h \<Longrightarrow> deref h p = Inr (h ! p)"
  by (simp add: deref_def)

lemma deref_out [simp]: "\<not> p < length h \<Longrightarrow> deref h p = Inl InvalidPointer"
  by (simp add: deref_def)

lemma find_file_from_eq:
  "find_file_from fs n i =
     (if n \<in> f_name ` set fs then i + int (length (takeWhile (\<lambda>f. f_name f \<noteq> n) fs)) else - 1)"
  by (induction fs arbitrary: i) auto

lemma find_subdir_from_eq:
  "\<forall>p\<in>set ps. p < length h \<Longrightarrow>
   find_subdir_from h ps n i =
     Inr (if n \<in> (\<lambda>p. d_name (h ! p)) ` set ps
          then i + int (length (takeWhile (\<lambda>p. d_name (h ! p) \<noteq> n) ps)) else - 1)"
  by (induction ps arbitrary: i) auto

lemma shift_down_eq:
  "i < length fs \<Longrightarrow> take (length fs - 1) (shift_down fs i) = take i fs @ drop (Suc i) fs"
proof (induction fs i rule: shift_down.induct)
  case (1 fs i)
  show ?case
  proof (cases "int i < int (length fs) - 1")
    case True
    then have lt: "Suc i < length fs" by simp
    have "take (length fs - 1) (shift_down fs i) =
          take (length (fs[i := fs ! (i + 1)]) - 1) (shift_down (fs[i := fs ! (i + 1)]) (i + 1))"
      using True by (subst shift_down.simps) simp
    also have "\<dots> = take (i + 1) (fs[i := fs ! (i + 1)]) @ drop (Suc (i + 1)) (fs[i := fs ! (i + 1)])"
      using "1.IH"[OF True] lt by simp
    also have "\<dots> = take i fs @ drop (Suc i) fs"
      using lt by (simp add: take_Suc_conv_app_nth Cons_nth_drop_Suc)
    finally show ?thesis .
  next
    case False
    with "1.prems" have "length fs = Suc i" by simp
    then show ?thesis using False by (subst shift_down.simps) simp
  qed
qed

lemma wf_nodeD:
  assumes "wf_heap h" "p < length h"
  shows "wf_node h p"
  using assms by (simp add: wf_heap_def list_all_iff)

lemma wf_sub_valid:
  assumes "wf_heap h" "p < length h" "c \<in> set (d_subdirs (h ! p))"
  shows "c < length h" "p < c" "d_parent (h ! c) = Some p"
  using wf_nodeD[OF assms(1,2)] assms(3) by (auto simp: wf_node_def list_all_iff)

lemma find_subdir_index_eq:
  assumes "wf_heap h" "c < length h"
  shows "find_subdir_index h c n =
     Inr (if n \<in> set (dir_names h c)
          then int (length (takeWhile (\<lambda>p. d_name (h ! p) \<noteq> n) (d_subdirs (h ! c)))) else - 1)"
proof -
  have "\<forall>p\<in>set (d_subdirs (h ! c)). p < length h"
    using wf_sub_valid(1)[OF assms] by blast
  then show ?thesis
    using assms(2) by (simp add: find_subdir_index_def find_subdir_from_eq dir_names_def)
qed

lemma find_file_index_eq:
  assumes "c < length h"
  shows "find_file_index h c n =
     Inr (if n \<in> set (file_names h c)
          then int (length (takeWhile (\<lambda>f. f_name f \<noteq> n) (d_files (h ! c)))) else - 1)"
  using assms by (simp add: find_file_index_def find_file_from_eq file_names_def)

lemma touch_cmd_eq:
  assumes "wf_heap h" "c < length h"
  shows "touch_cmd h c (Some n) =
     Inr (if n \<in> set (child_names h c) then (Err NameCollision ''name already exists'', h)
          else if MAX_FILES \<le> length (d_files (h ! c))
          then (Err CapacityExceeded ''file limit reached'', h)
          else (Ok [''file '' @ quoted n @ '' created''], add_file h c (h ! c) n))"
  using assms
  by (simp add: touch_cmd_def find_file_index_eq find_subdir_index_eq child_names_def)

lemma touch_cmd_L2_eq:
  assumes "wf_heap h" "c < length h"
  shows "touch_cmd_L2 h c (Some n) =
     Inr (if n \<in> set (file_names h c)
          then (Err NameCollision (''file '' @ quoted n @ '' already exists''), h)
          else if MAX_FILES \<le> length (d_files (h ! c))
          then (Err CapacityExceeded ''file limit reached'', h)
          else if n \<in> set (dir_names h c)
          then (Err NameCollision (''name '' @ quoted n @ '' already used by directory''), h)
          else (Ok [''file '' @ quoted n @ '' created''], add_file h c (h ! c) n))"
  using assms
  by (simp add: touch_cmd_L2_def find_file_index_eq find_subdir_index_eq)

lemma mkdir_cmd_eq:
  assumes "wf_heap h" "c < length h"
  shows "mkdir_cmd lim h c (Some n) =
     Inr (if MAX_SUBDIRS \<le> length (d_subdirs (h ! c))
          then (Err CapacityExceeded ''subdir limit reached'', h)
          else if n \<in> set (child_names h c) then (Err NameCollision ''name already exists'', h)
          else if \<not> length h < lim then (Err AllocationFailure ''memory error'', h)
          else (Ok [''directory '' @ quoted n @ '' created''], mk_heap h c n))"
  using assms
  by (simp add: mkdir_cmd_def find_file_index_eq find_subdir_index_eq child_names_def
      create_dir_def malloc_def add_subdir_def nth_append mk_heap_def)

lemma mkdir_cmd_L2_eq:
  assumes "wf_heap h" "c < length h"
  shows "mkdir_cmd_L2 lim h c (Some n) =
     Inr (if MAX_SUBDIRS \<le> length (d_subdirs (h ! c))
          then (Err CapacityExceeded ''subdir limit reached'', h)
          else if n \<in> set (child_names h c)
          then (Err NameCollision (''name '' @ quoted n @ '' already exists''), h)
          else if \<not> length h < lim then (Err AllocationFailure ''mkdir: memory error'', h)
          else (Ok [''directory '' @ quoted n @ '' created''], mk_heap h c n))"
  using assms
  by (simp add: mkdir_cmd_L2_def find_file_index_eq find_subdir_index_eq child_names_def
      create_dir_node_def create_dir_def malloc_def add_subdir_def nth_append mk_heap_def)

lemma takeWhile_idx:
  "n \<in> f ` set xs \<Longrightarrow> length (takeWhile (\<lambda>x. f x \<noteq> n) xs) < length xs"
  by (induction xs) auto

lemma takeWhile_hit:
  "n \<in> f ` set xs \<Longrightarrow> f (xs ! length (takeWhile (\<lambda>x. f x \<noteq> n) xs)) = n"
  by (induction xs) auto

lemma file_idx_less:
  "n \<in> set (file_names h c) \<Longrightarrow> file_idx h c n < length (d_files (h ! c))"
  by (simp add: file_idx_def file_names_def takeWhile_idx)

lemma file_idx_name:
  "n \<in> set (file_names h c) \<Longrightarrow> f_name (d_files (h ! c) ! file_idx h c n) = n"
  by (simp add: file_idx_def file_names_def takeWhile_hit)

lemma rm_cmd_eq:
  assumes "c < length h"
  shows "rm_cmd h c (Some n) =
     Inr (if n \<in> set (file_names h c)
          then (Ok [''file '' @ quoted n @ '' removed''], rm_heap h c n)
          else (Err NotFound ''no such file'', h))"
  using assms file_idx_less[of n h c]
  by (simp add: rm_cmd_def find_file_index_eq remove_file_def shift_down_eq[simplified] rm_heap_def
      file_idx_def)

lemma rm_cmd_L2_eq:
  assumes "c < length h"
  shows "rm_cmd_L2 h c (Some n) =
     Inr (if n \<in> set (file_names h c)
          then (Ok [''file '' @ quoted n @ '' removed''], rm_heap h c n)
          else (Err NotFound ''no such file'', h))"
  using assms file_idx_less[of n h c]
  by (simp add: rm_cmd_L2_def find_file_index_eq remove_file_def shift_down_eq[simplified] rm_heap_def
      file_idx_def)

lemma mv_cmd_eq:
  assumes "wf_heap h" "c < length h"
  shows "mv_cmd h c (Some a) (Some b) =
     Inr (if a \<notin> set (file_names h c) then (Err NotFound ''source not found'', h)
          else if b \<in> set (child_names h c)
          then (Err NameCollision ''destination already exists'', h)
          else (Ok [''renamed '' @ quoted a @ '' -> '' @ quoted b],
                rename_file h c (h ! c) (file_idx h c a) b))"
  using assms
  by (simp add: mv_cmd_def find_file_index_eq find_subdir_index_eq child_names_def file_idx_def)

lemma mv_cmd_L2_eq:
  assumes "wf_heap h" "c < length h"
  shows "mv_cmd_L2 h c (Some a) (Some b) =
     Inr (if a \<notin> set (file_names h c) then (Err NotFound (''mv: '' @ quoted a @ '' not found''), h)
          else if b \<in> set (file_names h c)
          then (Err NameCollision (''mv: '' @ quoted b @ '' already exists''), h)
          else if b \<in> set (dir_names h c)
          then (Err NameCollision (''mv: name '' @ quoted b @ '' already used by directory''), h)
          else (Ok [''file '' @ quoted a @ '' renamed to '' @ quoted b],
                rename_file h c (h ! c) (file_idx h c a) b))"
  using assms
  by (simp add: mv_cmd_L2_def find_file_index_eq find_subdir_index_eq file_idx_def)

lemma dir_idx_less:
  "n \<in> set (dir_names h c) \<Longrightarrow> dir_idx h c n < length (d_subdirs (h ! c))"
  by (simp add: dir_idx_def dir_names_def takeWhile_idx)

lemma cd_cmd_eq:
  assumes "wf_heap h" "c < length h"
  shows "cd_cmd h c (Some a) r =
     Inr (if a = ''/'' then (Ok [], r)
          else if a = ''.'' then (Ok [], c)
          else if a = ''..'' then (Ok [], case d_parent (h ! c) of Some p \<Rightarrow> p | None \<Rightarrow> c)
          else if a \<in> set (dir_names h c) then (Ok [], d_subdirs (h ! c) ! dir_idx h c a)
          else (Err NotFound ''no such directory'', c))"
  using assms
  by (simp add: cd_cmd_def find_subdir_index_eq dir_idx_def)

lemma cd_cmd_L2_eq:
  assumes "wf_heap h" "c < length h"
  shows "cd_cmd_L2 h c (Some a) r =
     Inr (if a = ''/'' then (Ok [], r)
          else if a = ''.'' then (Ok [], c)
          else if a = ''..'' then (Ok [], case d_parent (h ! c) of Some p \<Rightarrow> p | None \<Rightarrow> c)
          else if a \<in> set (dir_names h c) then (Ok [], d_subdirs (h ! c) ! dir_idx h c a)
          else (Err NotFound (''cd: no such directory: '' @ a), c))"
  using assms
  by (auto simp add: cd_cmd_L2_def find_subdir_index_eq dir_idx_def split: option.splits)

lemma wf_heap_iff: "wf_heap h \<longleftrightarrow> h \<noteq> [] \<and> (\<forall>p<length h. wf_node h p)"
  by (auto simp: wf_heap_def list_all_iff)

lemma copy_name_short [simp]: "length (copy_name n) < NAME_LEN"
  by (simp add: copy_name_def NAME_LEN_def)

lemma copy_name_id: "length n < NAME_LEN \<Longrightarrow> copy_name n = n"
  by (simp add: copy_name_def NAME_LEN_def)

lemma set_files_simps [simp]:
  "length (set_files h c fs) = length h"
  "p < length h \<Longrightarrow> d_subdirs (set_files h c fs ! p) = d_subdirs (h ! p)"
  "p < length h \<Longrightarrow> d_parent (set_files h c fs ! p) = d_parent (h ! p)"
  "p < length h \<Longrightarrow> d_name (set_files h c fs ! p) = d_name (h ! p)"
  "p < length h \<Longrightarrow> d_files (set_files h c fs ! p) = (if p = c then fs else d_files (h ! p))"
  by (cases "p = c"; simp add: set_files_def)+

lemma wf_node_same_shape:
  assumes wf: "wf_heap h" and p: "p < length h"
    and len: "length h' = length h"
    and same: "\<And>q. q < length h \<Longrightarrow>
       d_subdirs (h' ! q) = d_subdirs (h ! q) \<and> d_parent (h' ! q) = d_parent (h ! q) \<and>
       d_name (h' ! q) = d_name (h ! q)"
    and files: "list_all (\<lambda>f. length (f_name f) < NAME_LEN) (d_files (h' ! p))"
  shows "wf_node h' p"
proof -
  have n: "wf_node h p" using wf p by (rule wf_nodeD)
  have kids: "list_all (\<lambda>c. p < c \<and> c < length h' \<and> d_parent (h' ! c) = Some p)
      (d_subdirs (h' ! p))"
    using n same[OF p] same len by (auto simp: wf_node_def list_all_iff)
  have par: "(case d_parent (h' ! p) of None \<Rightarrow> p = 0
      | Some q \<Rightarrow> q < p \<and> p \<in> set (d_subdirs (h' ! q)))"
  proof (cases "d_parent (h ! p)")
    case None
    then show ?thesis using n same[OF p] by (simp add: wf_node_def)
  next
    case (Some q)
    then have q: "q < p" "p \<in> set (d_subdirs (h ! q))" using n by (simp_all add: wf_node_def)
    then have "q < length h" using p by simp
    then show ?thesis using Some q same[OF p] same[of q] by simp
  qed
  have rest: "distinct (d_subdirs (h' ! p))" "length (d_name (h' ! p)) < NAME_LEN"
    using n same[OF p] by (simp_all add: wf_node_def)
  show ?thesis using kids par rest files by (simp add: wf_node_def)
qed

lemma wf_node_set_files:
  assumes "wf_heap h" "p < length h" "list_all (\<lambda>f. length (f_name f) < NAME_LEN) fs"
  shows "wf_node (set_files h c fs) p"
proof (rule wf_node_same_shape[OF assms(1,2)])
  show "list_all (\<lambda>f. length (f_name f) < NAME_LEN) (d_files (set_files h c fs ! p))"
    using assms wf_nodeD[OF assms(1,2)] by (simp add: wf_node_def)
qed simp_all

lemma wf_heap_set_files:
  assumes "wf_heap h" "list_all (\<lambda>f. length (f_name f) < NAME_LEN) fs"
  shows "wf_heap (set_files h c fs)"
  using assms wf_node_set_files[OF assms(1) _ assms(2)]
  by (auto simp: wf_heap_iff set_files_def)

lemma mk_heap_simps [simp]:
  "length (mk_heap h c n) = Suc (length h)"
  "c < length h \<Longrightarrow> mk_heap h c n ! length h =
     \<lparr>d_name = copy_name n, d_parent = Some c, d_files = [], d_subdirs = []\<rparr>"
  "p < length h \<Longrightarrow> d_parent (mk_heap h c n ! p) = d_parent (h ! p)"
  "p < length h \<Longrightarrow> d_name (mk_heap h c n ! p) = d_name (h ! p)"
  "p < length h \<Longrightarrow> d_files (mk_heap h c n ! p) = d_files (h ! p)"
  "p < length h \<Longrightarrow> d_subdirs (mk_heap h c n ! p) =
     (if p = c then d_subdirs (h ! c) @ [length h] else d_subdirs (h ! p))"
  by (cases "p = c"; simp add: mk_heap_def nth_append)+

lemma wf_node_mk_heap_old:
  assumes wf: "wf_heap h" and c: "c < length h" and p: "p < length h"
  shows "wf_node (mk_heap h c n) p"
proof -
  let ?h = "mk_heap h c n"
  have n: "wf_node h p" using wf p by (rule wf_nodeD)
  have sub: "\<forall>q\<in>set (d_subdirs (h ! p)). q < length h"
    using wf_sub_valid(1)[OF wf p] by blast
  have kids: "list_all (\<lambda>q. p < q \<and> q < length ?h \<and> d_parent (?h ! q) = Some p)
      (d_subdirs (?h ! p))"
    using n sub p c by (auto simp: wf_node_def list_all_iff)
  have par: "(case d_parent (?h ! p) of None \<Rightarrow> p = 0
      | Some q \<Rightarrow> q < p \<and> p \<in> set (d_subdirs (?h ! q)))"
  proof (cases "d_parent (h ! p)")
    case None
    then show ?thesis using n p by (simp add: wf_node_def)
  next
    case (Some q)
    then have q: "q < p" "p \<in> set (d_subdirs (h ! q))" using n by (simp_all add: wf_node_def)
    then have "q < length h" using p by simp
    then show ?thesis using Some q p by auto
  qed
  have dist: "distinct (d_subdirs (?h ! p))"
    using n sub p by (auto simp: wf_node_def)
  have rest: "length (d_name (?h ! p)) < NAME_LEN"
      "list_all (\<lambda>f. length (f_name f) < NAME_LEN) (d_files (?h ! p))"
    using n p by (simp_all add: wf_node_def)
  show ?thesis using kids par dist rest by (simp add: wf_node_def)
qed

lemma wf_node_mk_heap_new:
  assumes "c < length h"
  shows "wf_node (mk_heap h c n) (length h)"
  using assms by (simp add: wf_node_def)

lemma wf_heap_mk_heap:
  assumes "wf_heap h" "c < length h"
  shows "wf_heap (mk_heap h c n)"
proof -
  have "wf_node (mk_heap h c n) p" if "p < Suc (length h)" for p
  proof (cases "p = length h")
    case True
    then show ?thesis using wf_node_mk_heap_new[OF assms(2)] by simp
  next
    case False
    with that have "p < length h" by simp
    then show ?thesis using wf_node_mk_heap_old[OF assms] by simp
  qed
  then show ?thesis by (auto simp: wf_heap_iff mk_heap_def)
qed

lemma add_file_eq: "add_file h c (h ! c) n = set_files h c (d_files (h ! c) @ [new_file n])"
  by (simp add: add_file_def set_files_def)

lemma rm_heap_eq:
  "rm_heap h c n = set_files h c (take (file_idx h c n) (d_files (h ! c)) @
     drop (Suc (file_idx h c n)) (d_files (h ! c)))"
  by (simp add: rm_heap_def set_files_def)

lemma rename_file_eq:
  "rename_file h c (h ! c) i b =
     set_files h c ((d_files (h ! c))[i := (d_files (h ! c) ! i)\<lparr>f_name := copy_name b\<rparr>])"
  by (simp add: rename_file_def set_files_def)

lemma chmod_cmd_eq:
  assumes "c < length h"
  shows "chmod_cmd h c (Some m) (Some n) =
     Inr (if n \<in> set (file_names h c)
          then (Ok [''permissions of '' @ quoted n @ '' changed to '' @ quoted m],
                set_files h c ((d_files (h ! c))[file_idx h c n :=
                  (d_files (h ! c) ! file_idx h c n)\<lparr>f_perm := take (PERM_LEN - 1) m\<rparr>]))
          else (Err NotFound (''chmod: '' @ quoted n @ '' not found''), h))"
  using assms
  by (simp add: chmod_cmd_def find_file_index_eq file_idx_def set_files_def)

lemma short_files:
  assumes "wf_heap h" "c < length h"
  shows "list_all (\<lambda>f. length (f_name f) < NAME_LEN) (d_files (h ! c))"
  using wf_nodeD[OF assms] by (simp add: wf_node_def)

lemma short_update:
  assumes "list_all P fs" "i < length fs \<Longrightarrow> P x"
  shows "list_all P (fs[i := x])"
proof (cases "i < length fs")
  case True
  then show ?thesis
    using assms by (auto simp: list_all_iff dest!: set_update_subset_insert[THEN subsetD])
next
  case False
  then show ?thesis using assms(1) by (simp add: list_update_beyond)
qed

lemma short_remove:
  assumes "list_all P fs"
  shows "list_all P (take i fs @ drop (Suc i) fs)"
  using assms by (auto simp: list_all_iff dest: in_set_takeD in_set_dropD)

lemma wf_touch:
  assumes "wf_heap h" "c < length h" "touch_cmd h c a = Inr (out, h')"
  shows "wf_heap h'"
proof (cases a)
  case None
  then show ?thesis using assms by (simp add: touch_cmd_def)
next
  case (Some n)
  have "wf_heap (set_files h c (d_files (h ! c) @ [new_file n]))"
    using short_files[OF assms(1,2)]
    by (intro wf_heap_set_files[OF assms(1)]) (simp add: new_file_def)
  then show ?thesis
    using assms Some by (auto simp: touch_cmd_eq add_file_eq split: if_splits)
qed

lemma wf_touch_L2:
  assumes "wf_heap h" "c < length h" "touch_cmd_L2 h c a = Inr (out, h')"
  shows "wf_heap h'"
proof (cases a)
  case None
  then show ?thesis using assms by (simp add: touch_cmd_L2_def)
next
  case (Some n)
  have "wf_heap (set_files h c (d_files (h ! c) @ [new_file n]))"
    using short_files[OF assms(1,2)]
    by (intro wf_heap_set_files[OF assms(1)]) (simp add: new_file_def)
  then show ?thesis
    using assms Some by (auto simp: touch_cmd_L2_eq add_file_eq split: if_splits)
qed

lemma wf_rm_heap:
  assumes "wf_heap h" "c < length h"
  shows "wf_heap (rm_heap h c n)"
  unfolding rm_heap_eq
  by (intro wf_heap_set_files[OF assms(1)] short_remove short_files[OF assms])

lemma wf_rm:
  assumes "wf_heap h" "c < length h" "rm_cmd h c a = Inr (out, h')"
  shows "wf_heap h'"
proof (cases a)
  case None
  then show ?thesis using assms by (simp add: rm_cmd_def)
next
  case (Some n)
  then show ?thesis
    using assms wf_rm_heap[OF assms(1,2)] by (auto simp: rm_cmd_eq split: if_splits)
qed

lemma wf_rm_L2:
  assumes "wf_heap h" "c < length h" "rm_cmd_L2 h c a = Inr (out, h')"
  shows "wf_heap h'"
proof (cases a)
  case None
  then show ?thesis using assms by (simp add: rm_cmd_L2_def)
next
  case (Some n)
  then show ?thesis
    using assms wf_rm_heap[OF assms(1,2)] by (auto simp: rm_cmd_L2_eq split: if_splits)
qed

lemma wf_rename:
  assumes "wf_heap h" "c < length h"
  shows "wf_heap (rename_file h c (h ! c) i b)"
  unfolding rename_file_eq
  by (intro wf_heap_set_files[OF assms(1)] short_update short_files[OF assms]) simp

lemma wf_mv:
  assumes "wf_heap h" "c < length h" "mv_cmd h c a b = Inr (out, h')"
  shows "wf_heap h'"
proof (cases "\<exists>x y. a = Some x \<and> b = Some y")
  case True
  then show ?thesis
    using assms wf_rename[OF assms(1,2)] by (auto simp: mv_cmd_eq split: if_splits)
next
  case False
  then show ?thesis using assms by (auto simp: mv_cmd_def split: option.splits)
qed

lemma wf_mv_L2:
  assumes "wf_heap h" "c < length h" "mv_cmd_L2 h c a b = Inr (out, h')"
  shows "wf_heap h'"
proof (cases "\<exists>x y. a = Some x \<and> b = Some y")
  case True
  then show ?thesis
    using assms wf_rename[OF assms(1,2)] by (auto simp: mv_cmd_L2_eq split: if_splits)
next
  case False
  then show ?thesis using assms by (auto simp: mv_cmd_L2_def split: option.splits)
qed

lemma wf_chmod:
  assumes "wf_heap h" "c < length h" "chmod_cmd h c a b = Inr (out, h')"
  shows "wf_heap h'"
proof (cases "\<exists>x y. a = Some x \<and> b = Some y")
  case True
  then obtain m n where ab: "a = Some m" "b = Some n" by blast
  let ?fs = "d_files (h ! c)"
  have "wf_heap (set_files h c (?fs[file_idx h c n :=
      (?fs ! file_idx h c n)\<lparr>f_perm := take (PERM_LEN - 1) m\<rparr>]))"
    using short_files[OF assms(1,2)]
    by (intro wf_heap_set_files[OF assms(1)] short_update) (simp_all add: list_all_length)
  then show ?thesis
    using assms ab by (auto simp: chmod_cmd_eq split: if_splits)
next
  case False
  then show ?thesis using assms by (auto simp: chmod_cmd_def split: option.splits)
qed

lemma wf_mkdir:
  assumes "wf_heap h" "c < length h" "mkdir_cmd lim h c a = Inr (out, h')"
  shows "wf_heap h' \<and> length h \<le> length h'"
proof (cases a)
  case None
  then show ?thesis using assms by (simp add: mkdir_cmd_def)
next
  case (Some n)
  then show ?thesis
    using assms wf_heap_mk_heap[OF assms(1,2)] by (auto simp: mkdir_cmd_eq split: if_splits)
qed

lemma wf_mkdir_L2:
  assumes "wf_heap h" "c < length h" "mkdir_cmd_L2 lim h c a = Inr (out, h')"
  shows "wf_heap h' \<and> length h \<le> length h'"
proof (cases a)
  case None
  then show ?thesis using assms by (simp add: mkdir_cmd_L2_def)
next
  case (Some n)
  then show ?thesis
    using assms wf_heap_mk_heap[OF assms(1,2)] by (auto simp: mkdir_cmd_L2_eq split: if_splits)
qed

lemma len_files_cmds:
  "c < length h \<Longrightarrow> touch_cmd h c a = Inr (out, h') \<Longrightarrow> length h' = length h"
  "c < length h \<Longrightarrow> touch_cmd_L2 h c a = Inr (out, h') \<Longrightarrow> length h' = length h"
  "c < length h \<Longrightarrow> rm_cmd h c a = Inr (out, h') \<Longrightarrow> length h' = length h"
  "c < length h \<Longrightarrow> rm_cmd_L2 h c a = Inr (out, h') \<Longrightarrow> length h' = length h"
  "c < length h \<Longrightarrow> mv_cmd h c a b = Inr (out, h') \<Longrightarrow> length h' = length h"
  "c < length h \<Longrightarrow> mv_cmd_L2 h c a b = Inr (out, h') \<Longrightarrow> length h' = length h"
  "c < length h \<Longrightarrow> chmod_cmd h c a b = Inr (out, h') \<Longrightarrow> length h' = length h"
  by (auto simp: touch_cmd_def touch_cmd_L2_def rm_cmd_def rm_cmd_L2_def mv_cmd_def mv_cmd_L2_def
      chmod_cmd_def add_file_def remove_file_def rename_file_def and_then_def
      split: option.splits sum.splits if_splits)

lemma wf_cd_target:
  assumes "wf_heap h" "c < length h"
  shows "(case d_parent (h ! c) of Some p \<Rightarrow> p | None \<Rightarrow> c) < length h"
    and "a \<in> set (dir_names h c) \<Longrightarrow> d_subdirs (h ! c) ! dir_idx h c a < length h"
proof -
  show "(case d_parent (h ! c) of Some p \<Rightarrow> p | None \<Rightarrow> c) < length h"
    using wf_nodeD[OF assms] assms(2) by (auto simp: wf_node_def split: option.splits)
  assume "a \<in> set (dir_names h c)"
  then have "d_subdirs (h ! c) ! dir_idx h c a \<in> set (d_subdirs (h ! c))"
    using dir_idx_less by simp
  then show "d_subdirs (h ! c) ! dir_idx h c a < length h"
    using wf_sub_valid(1)[OF assms] by blast
qed

lemma wf_cd:
  assumes "wf_heap h" "c < length h" "0 < length h" "cd_cmd h c a 0 = Inr (out, c')"
  shows "c' < length h"
proof (cases a)
  case None
  then show ?thesis using assms by (simp add: cd_cmd_def)
next
  case (Some n)
  then show ?thesis
    using assms wf_cd_target[OF assms(1,2)] by (auto simp: cd_cmd_eq split: if_splits)
qed

lemma wf_cd_L2:
  assumes "wf_heap h" "c < length h" "0 < length h" "cd_cmd_L2 h c a 0 = Inr (out, c')"
  shows "c' < length h"
proof (cases a)
  case None
  then show ?thesis using assms by (simp add: cd_cmd_L2_def)
next
  case (Some n)
  then show ?thesis
    using assms wf_cd_target[OF assms(1,2)] by (auto simp: cd_cmd_L2_eq split: if_splits)
qed

lemma wf_init: "wf_state init"
  by (simp add: wf_state_def wf_heap_def wf_node_def init_def)

lemma dir_names_mk_heap:
  assumes "wf_heap h" "c < length h" "p < length h"
  shows "dir_names (mk_heap h c n) p =
           (if p = c then dir_names h c @ [copy_name n] else dir_names h p)"
proof -
  have "\<forall>q\<in>set (d_subdirs (h ! p)). q < length h"
    using wf_sub_valid(1)[OF assms(1,3)] by blast
  then show ?thesis using assms(2,3) by (auto simp: dir_names_def)
qed

lemma file_names_mk_heap:
  "p < length h \<Longrightarrow> file_names (mk_heap h c n) p = file_names h p"
  by (simp add: file_names_def)

lemma takeWhile_all: "n \<notin> f ` set xs \<Longrightarrow> takeWhile (\<lambda>x. f x \<noteq> n) (xs @ ys) = xs @ takeWhile (\<lambda>x. f x \<noteq> n) ys"
  by (induction xs) auto

lemma mkdir_then_cd:
  assumes wf: "wf_heap h" and c: "c < length h"
    and short: "length n < NAME_LEN" and tok: "n \<notin> {''/'', ''.'', ''..''}"
    and fresh: "n \<notin> set (dir_names h c)"
  shows "cd_cmd (mk_heap h c n) c (Some n) r = Inr (Ok [], length h)"
    and "cd_cmd (mk_heap h c n) (length h) (Some ''..'') r = Inr (Ok [], c)"
    and "cd_cmd_L2 (mk_heap h c n) c (Some n) r = Inr (Ok [], length h)"
    and "cd_cmd_L2 (mk_heap h c n) (length h) (Some ''..'') r = Inr (Ok [], c)"
proof -
  let ?h = "mk_heap h c n"
  have wf': "wf_heap ?h" using wf c by (rule wf_heap_mk_heap)
  have c': "c < length ?h" and l': "length h < length ?h" using c by simp_all
  have dn: "dir_names ?h c = dir_names h c @ [n]"
    using dir_names_mk_heap[OF wf c c] short by (simp add: copy_name_id)
  have sv: "\<forall>q\<in>set (d_subdirs (h ! c)). q < length h"
    using wf_sub_valid(1)[OF wf c] by blast
  have "n \<notin> (\<lambda>p. d_name (?h ! p)) ` set (d_subdirs (h ! c))"
    using fresh sv by (auto simp: dir_names_def)
  then have idx: "dir_idx ?h c n = length (d_subdirs (h ! c))"
    using c short by (simp add: dir_idx_def takeWhile_all copy_name_id)
  have tgt: "d_subdirs (?h ! c) ! dir_idx ?h c n = length h"
    using c idx by simp
  show "cd_cmd ?h c (Some n) r = Inr (Ok [], length h)"
    using tok dn tgt by (simp add: cd_cmd_eq[OF wf' c'])
  show "cd_cmd_L2 ?h c (Some n) r = Inr (Ok [], length h)"
    using tok dn tgt by (simp add: cd_cmd_L2_eq[OF wf' c'])
  show "cd_cmd ?h (length h) (Some ''..'') r = Inr (Ok [], c)"
    using c by (simp add: cd_cmd_eq[OF wf' l'])
  show "cd_cmd_L2 ?h (length h) (Some ''..'') r = Inr (Ok [], c)"
    using c by (simp add: cd_cmd_L2_eq[OF wf' l'])
qed

lemma set_files_files:
  "c < length h \<Longrightarrow> d_files (set_files h c fs ! c) = fs"
  by simp

lemma set_files_other:
  "p \<noteq> c \<Longrightarrow> set_files h c fs ! p = h ! p"
  by (simp add: set_files_def)

lemma sample_state_reached:
  "map_sum id snd (run 2 [Touch (Some ''old''), Mkdir (Some ''d'')] init) = Inr sample_state"
  by code_simp

lemma wf_sample: "wf_state sample_state"
  by code_simp

lemma file_names_set_files:
  "p < length h \<Longrightarrow> file_names (set_files h c fs) p = (if p = c then map f_name fs else file_names h p)"
  by (simp add: file_names_def)

lemma dir_names_set_files:
  assumes "wf_heap h" "p < length h"
  shows "dir_names (set_files h c fs) p = dir_names h p"
proof -
  have "\<forall>q\<in>set (d_subdirs (h ! p)). q < length h"
    using wf_sub_valid(1)[OF assms] by blast
  then show ?thesis using assms(2) by (simp add: dir_names_def)
qed

lemma set_files_same:
  "c < length h \<Longrightarrow> set_files h c (d_files (h ! c)) = h"
  by (simp add: set_files_def)

lemma set_files_twice:
  "set_files (set_files h c fs) c gs = set_files h c gs"
  by (cases "c < length h") (simp_all add: set_files_def list_update_beyond)

lemma ls_subdirs_Nil: "ls_subdirs h l [] = Inr []" "ls_subdirs_L2 h l [] = Inr []"
  by simp_all

lemma stored_names_short:
  assumes "wf_heap h" "c < length h" "n \<in> set (child_names h c)"
  shows "length n < NAME_LEN"
proof -
  have fs: "list_all (\<lambda>f. length (f_name f) < NAME_LEN) (d_files (h ! c))"
    using short_files[OF assms(1,2)] .
  have "length (d_name (h ! q)) < NAME_LEN" if "q \<in> set (d_subdirs (h ! c))" for q
    using wf_nodeD[OF assms(1) wf_sub_valid(1)[OF assms(1,2) that]] by (simp add: wf_node_def)
  then show ?thesis
    using assms(3) fs by (auto simp: child_names_def file_names_def dir_names_def list_all_iff)
qed

lemma child_names_set_files:
  assumes "wf_heap h" "p < length h"
  shows "child_names (set_files h c fs) p =
           (if p = c then map f_name fs @ dir_names h p else child_names h p)"
  using assms by (simp add: child_names_def file_names_set_files dir_names_set_files)

lemma child_names_mk_heap:
  assumes "wf_heap h" "c < length h" "p < length h"
  shows "child_names (mk_heap h c n) p =
           (if p = c then child_names h c @ [copy_name n] else child_names h p)"
  using assms by (simp add: child_names_def file_names_mk_heap dir_names_mk_heap)

lemma not_distinct_update2:
  assumes "i < length xs" "j < length xs" "i \<noteq> j" "xs ! i = xs ! j"
  shows "\<not> distinct xs"
  using assms by (auto simp: distinct_conv_nth)

lemma fresh_batch_cong:
  "set a = set b \<Longrightarrow> fresh_batch a ns = fresh_batch b ns"
proof (induction ns arbitrary: a b)
  case Nil
  then show ?case by simp
next
  case (Cons n ns)
  have "set (a @ [copy_name n]) = set (b @ [copy_name n])"
    using Cons.prems by simp
  from Cons.IH[OF this] Cons.prems show ?case by simp
qed

lemma fresh_batch_last:
  "fresh_batch st (xs @ [x]) \<Longrightarrow> x \<notin> set st \<and> x \<notin> copy_name ` set xs"
proof (induction xs arbitrary: st)
  case Nil
  then show ?case by simp
next
  case (Cons a xs)
  then have "fresh_batch (st @ [copy_name a]) (xs @ [x])" by simp
  from Cons.IH[OF this] show ?case by simp
qed

lemma touch_many:
  assumes "wf_heap (heap s)" "cwd s < length (heap s)"
    and "fresh_batch (child_names (heap s) (cwd s)) ns"
    and "length (d_files (heap s ! cwd s)) + length ns \<le> MAX_FILES"
  shows "run lim (touch_all ns) s =
           Inr (map created ns,
                s\<lparr>heap := set_files (heap s) (cwd s) (d_files (heap s ! cwd s) @ map new_file ns)\<rparr>) \<and>
         run_L2 lim (touch_all ns) s =
           Inr (map created ns,
                s\<lparr>heap := set_files (heap s) (cwd s) (d_files (heap s ! cwd s) @ map new_file ns)\<rparr>)"
  using assms
proof (induction ns arbitrary: s)
  case Nil
  then show ?case by (simp add: touch_all_def set_files_same)
next
  case (Cons n ns)
  let ?h = "heap s" and ?c = "cwd s"
  let ?fs = "d_files (?h ! ?c)"
  let ?h1 = "set_files ?h ?c (?fs @ [new_file n])"
  let ?s1 = "s\<lparr>heap := ?h1\<rparr>"
  note wf = Cons.prems(1) and c = Cons.prems(2)
  have fresh: "n \<notin> set (child_names ?h ?c)"
    and rest: "fresh_batch (child_names ?h ?c @ [copy_name n]) ns"
    using Cons.prems(3) by simp_all
  have cap: "\<not> MAX_FILES \<le> length ?fs" using Cons.prems(4) by simp
  have fresh': "n \<notin> set (file_names ?h ?c)" "n \<notin> set (dir_names ?h ?c)"
    using fresh by (simp_all add: child_names_def)
  have e1: "exec lim (Touch (Some n)) s = Inr (created n, ?s1)"
    using fresh cap by (simp add: on_heap_def touch_cmd_eq[OF wf c] add_file_eq created_def)
  have e2: "exec_L2 lim (Touch (Some n)) s = Inr (created n, ?s1)"
    using fresh' cap by (simp add: on_heap_def touch_cmd_L2_eq[OF wf c] add_file_eq created_def)
  have wf1: "wf_heap (heap ?s1)"
    using short_files[OF wf c]
    by (simp add: wf_heap_set_files[OF wf] new_file_def)
  have c1: "cwd ?s1 < length (heap ?s1)" using c by simp
  have cn1: "child_names ?h1 ?c = map f_name (?fs @ [new_file n]) @ dir_names ?h ?c"
    using child_names_set_files[OF wf c, of ?c] by simp
  have "set (map f_name (?fs @ [new_file n]) @ dir_names ?h ?c) =
      set (child_names ?h ?c @ [copy_name n])"
    by (auto simp: child_names_def file_names_def new_file_def)
  then have "set (child_names ?h1 ?c) = set (child_names ?h ?c @ [copy_name n])"
    by (simp only: cn1)
  from fresh_batch_cong[OF this, of ns] rest
  have f1: "fresh_batch (child_names (heap ?s1) (cwd ?s1)) ns"
    by simp
  have l1: "length (d_files (heap ?s1 ! cwd ?s1)) + length ns \<le> MAX_FILES"
    using Cons.prems(4) c by simp
  have fin: "set_files ?h1 ?c (d_files (?h1 ! ?c) @ map new_file ns) =
      set_files ?h ?c (?fs @ map new_file (n # ns))"
    using c by (simp add: set_files_twice)
  from Cons.IH[OF wf1 c1 f1 l1] fin e1 e2
  show ?case by (simp add: touch_all_def)
qed

lemma fresh_batch_take: "fresh_batch st ns \<Longrightarrow> fresh_batch st (take k ns)"
proof (induction ns arbitrary: st k)
  case Nil
  then show ?case by simp
next
  case (Cons n ns)
  then show ?case by (cases k) auto
qed

lemma batch17_fresh: "fresh_batch [] batch17"
  by code_simp

lemma crowded_fresh: "fresh_batch [] (''x'' # take 15 batch17)"
  by code_simp

lemma f16_new: "''f16'' \<notin> set (''x'' # take 15 batch17)"
  by code_simp

lemma unique_names_iff: "unique_names h \<longleftrightarrow> (\<forall>p<length h. distinct (child_names h p))"
  by (auto simp: unique_names_def list_all_iff)

lemma unique_set_files:
  assumes "wf_heap h" "c < length h" "unique_names h"
    and "distinct (map f_name fs @ dir_names h c)"
  shows "unique_names (set_files h c fs)"
  using assms by (simp add: unique_names_iff child_names_set_files)

lemma child_names_new_node:
  assumes "c < length h"
  shows "child_names (mk_heap h c n) (length h) = []"
  using assms by (simp add: child_names_def file_names_def dir_names_def)

lemma unique_mk_heap:
  assumes "wf_heap h" "c < length h" "unique_names h"
    and "copy_name n \<notin> set (child_names h c)"
  shows "unique_names (mk_heap h c n)"
proof -
  have "distinct (child_names (mk_heap h c n) p)" if "p < Suc (length h)" for p
  proof (cases "p = length h")
    case True
    then show ?thesis using child_names_new_node[OF assms(2)] by simp
  next
    case False
    with that have p: "p < length h" by simp
    then show ?thesis
      using assms(3,4) by (simp add: child_names_mk_heap[OF assms(1,2)] unique_names_iff)
  qed
  then show ?thesis by (simp add: unique_names_iff)
qed

lemma distinct_remove:
  assumes "distinct (xs @ ys)"
  shows "distinct (take i xs @ drop (Suc i) xs @ ys)"
proof -
  have "set (take i xs) \<inter> set (drop (Suc i) xs) = {}"
    using assms by (intro set_take_disj_set_drop_if_distinct) simp_all
  moreover have "set (take i xs) \<subseteq> set xs" "set (drop (Suc i) xs) \<subseteq> set xs"
    by (simp_all add: set_take_subset set_drop_subset)
  ultimately show ?thesis using assms by auto
qed

lemma distinct_rename:
  assumes "distinct (xs @ ys)" "b \<notin> set (xs @ ys)"
  shows "distinct (xs[i := b] @ ys)"
proof -
  have "distinct (xs[i := b])"
    using assms by (intro distinct_list_update) auto
  moreover have "set (xs[i := b]) \<subseteq> insert b (set xs)"
    by (rule set_update_subset_insert)
  ultimately show ?thesis using assms by auto
qed

lemma unique_touch:
  assumes "wf_heap h" "c < length h" "unique_names h"
    and "n \<notin> set (child_names h c)" "length n < NAME_LEN"
  shows "unique_names (set_files h c (d_files (h ! c) @ [new_file n]))"
proof (rule unique_set_files[OF assms(1-3)])
  have "distinct (child_names h c)" using assms(2,3) by (simp add: unique_names_iff)
  then show "distinct (map f_name (d_files (h ! c) @ [new_file n]) @ dir_names h c)"
    using assms(4,5)
    by (auto simp: child_names_def file_names_def new_file_def copy_name_id)
qed

lemma unique_rm:
  assumes "wf_heap h" "c < length h" "unique_names h"
  shows "unique_names (rm_heap h c n)"
  unfolding rm_heap_eq
proof (rule unique_set_files[OF assms])
  have "distinct (child_names h c)" using assms(2,3) by (simp add: unique_names_iff)
  then show "distinct (map f_name (take (file_idx h c n) (d_files (h ! c)) @
      drop (Suc (file_idx h c n)) (d_files (h ! c))) @ dir_names h c)"
    using distinct_remove[of "file_names h c" "dir_names h c" "file_idx h c n"]
    by (simp add: child_names_def file_names_def take_map drop_map)
qed

lemma unique_rename:
  assumes "wf_heap h" "c < length h" "unique_names h"
    and "b \<notin> set (child_names h c)" "length b < NAME_LEN"
  shows "unique_names (rename_file h c (h ! c) i b)"
  unfolding rename_file_eq
proof (rule unique_set_files[OF assms(1-3)])
  have "distinct (child_names h c)" using assms(2,3) by (simp add: unique_names_iff)
  then show "distinct (map f_name ((d_files (h ! c))[i := (d_files (h ! c) ! i)\<lparr>f_name := copy_name b\<rparr>]) @
      dir_names h c)"
    using distinct_rename[of "file_names h c" "dir_names h c" b i] assms(4,5)
    by (simp add: child_names_def file_names_def map_update copy_name_id)
qed

lemma exec_touch:
  assumes wfs: "wf_state s" and un: "unique_names (heap s)"
    and sa: "short_arg (Touch a)"
  shows "\<exists>out s'. exec lim (Touch a) s = Inr (out, s') \<and> wf_state s' \<and> unique_names (heap s')"
    and "\<exists>out s'. exec_L2 lim (Touch a) s = Inr (out, s') \<and> wf_state s' \<and> unique_names (heap s')"
proof -
  have wf: "wf_heap (heap s)" and c: "cwd s < length (heap s)" and r: "root s = 0"
    using wfs by (simp_all add: wf_state_def)
  let ?h = "heap s" and ?c = "cwd s"
  have same: "wf_state (s\<lparr>heap := ?h\<rparr>) \<and> unique_names (heap (s\<lparr>heap := ?h\<rparr>))"
    using wfs un by simp
  have new: "wf_state (s\<lparr>heap := set_files ?h ?c (d_files (?h ! ?c) @ [new_file n])\<rparr>) \<and>
      unique_names (heap (s\<lparr>heap := set_files ?h ?c (d_files (?h ! ?c) @ [new_file n])\<rparr>))"
    if "n \<notin> set (child_names ?h ?c)" "length n < NAME_LEN" for n
    using unique_touch[OF wf c un that] short_files[OF wf c] c r
    by (simp add: wf_state_def wf_heap_set_files[OF wf] new_file_def)
  show "\<exists>out s'. exec lim (Touch a) s = Inr (out, s') \<and> wf_state s' \<and> unique_names (heap s')"
  proof (cases a)
    case None
    then show ?thesis using same by (simp add: touch_cmd_def on_heap_def)
  next
    case (Some n)
    then have "length n < NAME_LEN" using sa by (simp add: short_arg_def)
    then show ?thesis
      using Some same new[of n]
      by (simp add: on_heap_def touch_cmd_eq[OF wf c] add_file_eq)
  qed
  show "\<exists>out s'. exec_L2 lim (Touch a) s = Inr (out, s') \<and> wf_state s' \<and> unique_names (heap s')"
  proof (cases a)
    case None
    then show ?thesis using same by (simp add: touch_cmd_L2_def on_heap_def)
  next
    case (Some n)
    then have "length n < NAME_LEN" using sa by (simp add: short_arg_def)
    then show ?thesis
      using Some same new[of n]
      by (simp add: on_heap_def touch_cmd_L2_eq[OF wf c] add_file_eq child_names_def)
  qed
qed

lemma exec_rm:
  assumes wfs: "wf_state s" and un: "unique_names (heap s)"
  shows "\<exists>out s'. exec lim (Rm a) s = Inr (out, s') \<and> wf_state s' \<and> unique_names (heap s')"
    and "\<exists>out s'. exec_L2 lim (Rm a) s = Inr (out, s') \<and> wf_state s' \<and> unique_names (heap s')"
proof -
  have wf: "wf_heap (heap s)" and c: "cwd s < length (heap s)" and r: "root s = 0"
    using wfs by (simp_all add: wf_state_def)
  let ?h = "heap s" and ?c = "cwd s"
  have same: "wf_state (s\<lparr>heap := ?h\<rparr>) \<and> unique_names (heap (s\<lparr>heap := ?h\<rparr>))"
    using wfs un by simp
  have new: "wf_state (s\<lparr>heap := rm_heap ?h ?c n\<rparr>) \<and>
      unique_names (heap (s\<lparr>heap := rm_heap ?h ?c n\<rparr>))" for n
    using unique_rm[OF wf c un] wf_rm_heap[OF wf c] c r
    by (simp add: wf_state_def rm_heap_eq)
  show "\<exists>out s'. exec lim (Rm a) s = Inr (out, s') \<and> wf_state s' \<and> unique_names (heap s')"
  proof (cases a)
    case None
    then show ?thesis using same by (simp add: rm_cmd_def on_heap_def)
  next
    case (Some n)
    then show ?thesis
      using same new[of n] by (simp add: on_heap_def rm_cmd_eq[OF c])
  qed
  show "\<exists>out s'. exec_L2 lim (Rm a) s = Inr (out, s') \<and> wf_state s' \<and> unique_names (heap s')"
  proof (cases a)
    case None
    then show ?thesis using same by (simp add: rm_cmd_L2_def on_heap_def)
  next
    case (Some n)
    then show ?thesis
      using same new[of n] by (simp add: on_heap_def rm_cmd_L2_eq[OF c])
  qed
qed

lemma exec_mv:
  assumes wfs: "wf_state s" and un: "unique_names (heap s)"
    and sa: "short_arg (Mv a b)"
  shows "\<exists>out s'. exec lim (Mv a b) s = Inr (out, s') \<and> wf_state s' \<and> unique_names (heap s')"
    and "\<exists>out s'. exec_L2 lim (Mv a b) s = Inr (out, s') \<and> wf_state s' \<and> unique_names (heap s')"
proof -
  have wf: "wf_heap (heap s)" and c: "cwd s < length (heap s)" and r: "root s = 0"
    using wfs by (simp_all add: wf_state_def)
  let ?h = "heap s" and ?c = "cwd s"
  have same: "wf_state (s\<lparr>heap := ?h\<rparr>) \<and> unique_names (heap (s\<lparr>heap := ?h\<rparr>))"
    using wfs un by simp
  have new: "wf_state (s\<lparr>heap := rename_file ?h ?c (?h ! ?c) i n\<rparr>) \<and>
      unique_names (heap (s\<lparr>heap := rename_file ?h ?c (?h ! ?c) i n\<rparr>))"
    if "n \<notin> set (child_names ?h ?c)" "length n < NAME_LEN" for n i
    using unique_rename[OF wf c un that] wf_rename[OF wf c] c r
    by (simp add: wf_state_def rename_file_eq)
  show "\<exists>out s'. exec lim (Mv a b) s = Inr (out, s') \<and> wf_state s' \<and> unique_names (heap s')"
  proof (cases "\<exists>x y. a = Some x \<and> b = Some y")
    case True
    then obtain x y where xy: "a = Some x" "b = Some y" by blast
    then have "length y < NAME_LEN" using sa by (simp add: short_arg_def)
    then show ?thesis
      using xy same new[of y] by (simp add: on_heap_def mv_cmd_eq[OF wf c])
  next
    case False
    then show ?thesis
      using same by (auto simp: on_heap_def mv_cmd_def split: option.splits)
  qed
  show "\<exists>out s'. exec_L2 lim (Mv a b) s = Inr (out, s') \<and> wf_state s' \<and> unique_names (heap s')"
  proof (cases "\<exists>x y. a = Some x \<and> b = Some y")
    case True
    then obtain x y where xy: "a = Some x" "b = Some y" by blast
    then have "length y < NAME_LEN" using sa by (simp add: short_arg_def)
    then show ?thesis
      using xy same new[of y] by (simp add: on_heap_def mv_cmd_L2_eq[OF wf c] child_names_def)
  next
    case False
    then show ?thesis
      using same by (auto simp: on_heap_def mv_cmd_L2_def split: option.splits)
  qed
qed

lemma exec_mkdir:
  assumes wfs: "wf_state s" and un: "unique_names (heap s)"
    and sa: "short_arg (Mkdir a)"
  shows "\<exists>out s'. exec lim (Mkdir a) s = Inr (out, s') \<and> wf_state s' \<and> unique_names (heap s')"
    and "\<exists>out s'. exec_L2 lim (Mkdir a) s = Inr (out, s') \<and> wf_state s' \<and> unique_names (heap s')"
proof -
  have wf: "wf_heap (heap s)" and c: "cwd s < length (heap s)" and r: "root s = 0"
    using wfs by (simp_all add: wf_state_def)
  let ?h = "heap s" and ?c = "cwd s"
  have same: "wf_state (s\<lparr>heap := ?h\<rparr>) \<and> unique_names (heap (s\<lparr>heap := ?h\<rparr>))"
    using wfs un by simp
  have new: "wf_state (s\<lparr>heap := mk_heap ?h ?c n\<rparr>) \<and>
      unique_names (heap (s\<lparr>heap := mk_heap ?h ?c n\<rparr>))"
    if "n \<notin> set (child_names ?h ?c)" "length n < NAME_LEN" for n
    using unique_mk_heap[OF wf c un, of n] that wf_heap_mk_heap[OF wf c] c r
    by (simp add: wf_state_def copy_name_id)
  show "\<exists>out s'. exec lim (Mkdir a) s = Inr (out, s') \<and> wf_state s' \<and> unique_names (heap s')"
  proof (cases a)
    case None
    then show ?thesis using same by (simp add: mkdir_cmd_def on_heap_def)
  next
    case (Some n)
    then have "length n < NAME_LEN" using sa by (simp add: short_arg_def)
    then show ?thesis
      using Some same new[of n] by (simp add: on_heap_def mkdir_cmd_eq[OF wf c])
  qed
  show "\<exists>out s'. exec_L2 lim (Mkdir a) s = Inr (out, s') \<and> wf_state s' \<and> unique_names (heap s')"
  proof (cases a)
    case None
    then show ?thesis using same by (simp add: mkdir_cmd_L2_def on_heap_def)
  next
    case (Some n)
    then have "length n < NAME_LEN" using sa by (simp add: short_arg_def)
    then show ?thesis
      using Some same new[of n] by (simp add: on_heap_def mkdir_cmd_L2_eq[OF wf c])
  qed
qed

lemma exec_cd:
  assumes wfs: "wf_state s" and un: "unique_names (heap s)"
  shows "\<exists>out s'. exec lim (Cd a) s = Inr (out, s') \<and> wf_state s' \<and> unique_names (heap s')"
    and "\<exists>out s'. exec_L2 lim (Cd a) s = Inr (out, s') \<and> wf_state s' \<and> unique_names (heap s')"
proof -
  have wf: "wf_heap (heap s)" and c: "cwd s < length (heap s)" and r: "root s = 0"
    using wfs by (simp_all add: wf_state_def)
  let ?h = "heap s" and ?c = "cwd s"
  have to: "wf_state (s\<lparr>cwd := c'\<rparr>) \<and> unique_names (heap (s\<lparr>cwd := c'\<rparr>))"
    if "c' < length ?h" for c'
    using that wf r un by (simp add: wf_state_def)
  have z: "0 < length ?h" using c by (cases "heap s") simp_all
  show "\<exists>out s'. exec lim (Cd a) s = Inr (out, s') \<and> wf_state s' \<and> unique_names (heap s')"
  proof (cases a)
    case None
    then show ?thesis using to[OF c] by (simp add: cd_cmd_def)
  next
    case (Some n)
    then show ?thesis
      using to[OF c] to[OF z] to[OF wf_cd_target(1)[OF wf c]] to[OF wf_cd_target(2)[OF wf c, of n]] r
      by (simp add: cd_cmd_eq[OF wf c])
  qed
  show "\<exists>out s'. exec_L2 lim (Cd a) s = Inr (out, s') \<and> wf_state s' \<and> unique_names (heap s')"
  proof (cases a)
    case None
    then show ?thesis using to[OF c] by (simp add: cd_cmd_L2_def)
  next
    case (Some n)
    then show ?thesis
      using to[OF c] to[OF z] to[OF wf_cd_target(1)[OF wf c]] to[OF wf_cd_target(2)[OF wf c, of n]] r
      by (simp add: cd_cmd_L2_eq[OF wf c])
  qed
qed

lemma exec_tree_cmd:
  assumes "wf_state s" "unique_names (heap s)" "tree_cmd c" "short_arg c"
  shows "\<exists>out s'. exec lim c s = Inr (out, s') \<and> wf_state s' \<and> unique_names (heap s')"
    and "\<exists>out s'. exec_L2 lim c s = Inr (out, s') \<and> wf_state s' \<and> unique_names (heap s')"
  using assms exec_touch exec_rm exec_mv exec_mkdir exec_cd
  by (cases c; simp del: exec.simps exec_L2.simps)+

lemma run_tree_cmds:
  assumes "wf_state s" "unique_names (heap s)" "list_all tree_cmd cs" "list_all short_arg cs"
  shows "\<exists>outs s'. run lim cs s = Inr (outs, s') \<and> wf_state s' \<and> unique_names (heap s')"
  using assms
proof (induction cs arbitrary: s)
  case Nil
  then show ?case by simp
next
  case (Cons c cs)
  obtain out s1 where s1: "exec lim c s = Inr (out, s1)" "wf_state s1" "unique_names (heap s1)"
    using exec_tree_cmd(1)[of s c lim] Cons.prems by auto
  obtain outs s2 where "run lim cs s1 = Inr (outs, s2)" "wf_state s2" "unique_names (heap s2)"
    using Cons.IH[OF s1(2,3)] Cons.prems by auto
  then show ?case using s1(1) by simp
qed

lemma run_L2_tree_cmds:
  assumes "wf_state s" "unique_names (heap s)" "list_all tree_cmd cs" "list_all short_arg cs"
  shows "\<exists>outs s'. run_L2 lim cs s = Inr (outs, s') \<and> wf_state s' \<and> unique_names (heap s')"
  using assms
proof (induction cs arbitrary: s)
  case Nil
  then show ?case by simp
next
  case (Cons c cs)
  obtain out s1 where s1: "exec_L2 lim c s = Inr (out, s1)" "wf_state s1" "unique_names (heap s1)"
    using exec_tree_cmd(2)[of s c lim] Cons.prems by auto
  obtain outs s2 where "run_L2 lim cs s1 = Inr (outs, s2)" "wf_state s2" "unique_names (heap s2)"
    using Cons.IH[OF s1(2,3)] Cons.prems by auto
  then show ?case using s1(1) by simp
qed

lemma unique_init: "unique_names (heap init)"
  by (simp add: unique_names_def init_def child_names_def file_names_def dir_names_def)

lemma touch_then_mkdir:
  assumes wf: "wf_heap h" and c: "c < length h" and short: "length n < NAME_LEN"
    and t: "touch_cmd h c (Some n) = Inr (Ok m, h1) \<or> touch_cmd_L2 h c (Some n) = Inr (Ok m, h1)"
  shows "mkdir_cmd lim h1 c (Some n) =
           Inr (if MAX_SUBDIRS \<le> length (d_subdirs (h ! c))
                then Err CapacityExceeded ''subdir limit reached''
                else Err NameCollision ''name already exists'', h1)"
    and "mkdir_cmd_L2 lim h1 c (Some n) =
           Inr (if MAX_SUBDIRS \<le> length (d_subdirs (h ! c))
                then Err CapacityExceeded ''subdir limit reached''
                else Err NameCollision (''name '' @ quoted n @ '' already exists''), h1)"
proof -
  have h1: "h1 = set_files h c (d_files (h ! c) @ [new_file n])"
    using t by (auto simp: touch_cmd_eq[OF wf c] touch_cmd_L2_eq[OF wf c] add_file_eq
        split: if_splits)
  have wf1: "wf_heap h1"
    unfolding h1 using short_files[OF wf c]
    by (simp add: wf_heap_set_files[OF wf] new_file_def)
  have c1: "c < length h1" using c by (simp add: h1)
  have "n \<in> set (child_names h1 c)"
    using c short by (simp add: h1 child_names_set_files[OF wf c] new_file_def copy_name_id)
  moreover have "d_subdirs (h1 ! c) = d_subdirs (h ! c)" using c by (simp add: h1)
  ultimately show "mkdir_cmd lim h1 c (Some n) =
           Inr (if MAX_SUBDIRS \<le> length (d_subdirs (h ! c))
                then Err CapacityExceeded ''subdir limit reached''
                else Err NameCollision ''name already exists'', h1)"
    and "mkdir_cmd_L2 lim h1 c (Some n) =
           Inr (if MAX_SUBDIRS \<le> length (d_subdirs (h ! c))
                then Err CapacityExceeded ''subdir limit reached''
                else Err NameCollision (''name '' @ quoted n @ '' already exists''), h1)"
    by (simp_all add: mkdir_cmd_eq[OF wf1 c1] mkdir_cmd_L2_eq[OF wf1 c1])
qed

lemma mkdir_then_touch:
  assumes wf: "wf_heap h" and c: "c < length h" and short: "length n < NAME_LEN"
    and t: "mkdir_cmd lim h c (Some n) = Inr (Ok m, h1) \<or>
            mkdir_cmd_L2 lim h c (Some n) = Inr (Ok m, h1)"
  shows "touch_cmd h1 c (Some n) = Inr (Err NameCollision ''name already exists'', h1)"
    and "touch_cmd_L2 h1 c (Some n) =
           Inr (if MAX_FILES \<le> length (d_files (h ! c))
                then Err CapacityExceeded ''file limit reached''
                else Err NameCollision (''name '' @ quoted n @ '' already used by directory''), h1)"
proof -
  have h1: "h1 = mk_heap h c n" and fresh: "n \<notin> set (child_names h c)"
    using t by (auto simp: mkdir_cmd_eq[OF wf c] mkdir_cmd_L2_eq[OF wf c] split: if_splits)
  have wf1: "wf_heap h1" unfolding h1 using wf c by (rule wf_heap_mk_heap)
  have c1: "c < length h1" using c by (simp add: h1)
  have cn: "child_names h1 c = child_names h c @ [n]"
    using short by (simp add: h1 child_names_mk_heap[OF wf c c] copy_name_id)
  have fn: "file_names h1 c = file_names h c" using c by (simp add: h1 file_names_mk_heap)
  have dn: "dir_names h1 c = dir_names h c @ [n]"
    using short by (simp add: h1 dir_names_mk_heap[OF wf c c] copy_name_id)
  have fs: "d_files (h1 ! c) = d_files (h ! c)" using c by (simp add: h1)
  show "touch_cmd h1 c (Some n) = Inr (Err NameCollision ''name already exists'', h1)"
    by (simp add: touch_cmd_eq[OF wf1 c1] cn)
  show "touch_cmd_L2 h1 c (Some n) =
           Inr (if MAX_FILES \<le> length (d_files (h ! c))
                then Err CapacityExceeded ''file limit reached''
                else Err NameCollision (''name '' @ quoted n @ '' already used by directory''), h1)"
    using fresh by (simp add: touch_cmd_L2_eq[OF wf1 c1] fn dn fs child_names_def)
qed

declare postorder.simps [simp del]

lemma heap7_reached: "map_sum id (heap \<circ> snd) (run 7 tree7 init) = Inr heap7"
  by code_simp

lemma fuel_mono_both:
  "(free_dir k h d fr = Some r \<longrightarrow> free_dir (k + j) h d fr = Some r) \<and>
   (free_loop k h p i fr = Some r \<longrightarrow> free_loop (k + j) h p i fr = Some r)"
proof (induction k arbitrary: d fr r p i)
  case 0
  then show ?case by simp
next
  case (Suc k)
  have dir: "free_dir (Suc k + j) h d fr = Some r" if a: "free_dir (Suc k) h d fr = Some r"
  proof (cases d)
    case None
    then show ?thesis using a by simp
  next
    case (Some a')
    from a Some obtain x where x: "free_loop k h a' 0 fr = Some x"
      by (cases "free_loop k h a' 0 fr") auto
    then have "free_loop (k + j) h a' 0 fr = Some x" using Suc.IH by blast
    then show ?thesis using a Some x by simp
  qed
  have loop: "free_loop (Suc k + j) h p i fr = Some r" if a: "free_loop (Suc k) h p i fr = Some r"
  proof (cases "p \<notin> set fr \<and> p < length h \<and> i < length (d_subdirs (h ! p))")
    case True
    let ?c = "d_subdirs (h ! p) ! i"
    from a True obtain x where x: "free_dir k h (Some ?c) fr = Some x"
      by (cases "free_dir k h (Some ?c) fr") auto
    then have x': "free_dir (k + j) h (Some ?c) fr = Some x" using Suc.IH by blast
    show ?thesis
    proof (cases x)
      case (Inl e)
      then show ?thesis using a True x x' by auto
    next
      case (Inr fr')
      then have "free_loop k h p (i + 1) fr' = Some r" using a True x by simp
      then have "free_loop (k + j) h p (i + 1) fr' = Some r" using Suc.IH by blast
      then show ?thesis using True x' Inr by simp
    qed
  next
    case False
    then show ?thesis using a by (auto simp: deref_def split: if_splits)
  qed
  show ?case using dir loop by blast
qed

lemma free_dir_mono: "free_dir k h d fr = Some r \<Longrightarrow> k \<le> k' \<Longrightarrow> free_dir k' h d fr = Some r"
  using fuel_mono_both[where k=k and h=h and d=d and fr=fr and r=r and j="k' - k"] by simp

lemma free_loop_mono:
  "free_loop k h p i fr = Some r \<Longrightarrow> k \<le> k' \<Longrightarrow> free_loop k' h p i fr = Some r"
  using fuel_mono_both[where k=k and h=h and p=p and i=i and fr=fr and r=r and j="k' - k"]
  by simp

lemma postorder_wf:
  assumes "wf_heap h" "d < length h"
  shows "postorder h d = concat (map (postorder h) (d_subdirs (h ! d))) @ [d]"
proof -
  have "list_all (\<lambda>c. d < c) (d_subdirs (h ! d))"
    using wf_sub_valid(2)[OF assms] by (simp add: list_all_iff)
  then show ?thesis using assms(2) by (subst postorder.simps) simp
qed

lemma postorder_last: "last (postorder h d) = d"
  by (subst postorder.simps) simp

lemma postorder_self: "d \<in> set (postorder h d)"
  by (subst postorder.simps) simp

lemma postorder_range:
  "wf_heap h \<Longrightarrow> d < length h \<Longrightarrow> x \<in> set (postorder h d) \<Longrightarrow> d \<le> x \<and> x < length h"
proof (induction h d arbitrary: x rule: postorder.induct)
  case (1 h d)
  note wf = "1.prems"(1) and d = "1.prems"(2)
  have g: "d < length h \<and> list_all (\<lambda>c. d < c) (d_subdirs (h ! d))"
    using wf_sub_valid(2)[OF wf d] d by (simp add: list_all_iff)
  from "1.prems"(3) have "x = d \<or> (\<exists>c\<in>set (d_subdirs (h ! d)). x \<in> set (postorder h c))"
    by (auto simp: postorder_wf[OF wf d])
  then show ?case
  proof
    assume "x = d"
    then show ?thesis using d by simp
  next
    assume "\<exists>c\<in>set (d_subdirs (h ! d)). x \<in> set (postorder h c)"
    then obtain c where c: "c \<in> set (d_subdirs (h ! d))" "x \<in> set (postorder h c)" by blast
    have cl: "c < length h" "d < c" using wf_sub_valid[OF wf d c(1)] by simp_all
    from "1.IH"[OF g c(1) wf cl(1) c(2)] cl show ?thesis by simp
  qed
qed

lemma postorder_parent:
  "wf_heap h \<Longrightarrow> d < length h \<Longrightarrow> x \<in> set (postorder h d) \<Longrightarrow> x \<noteq> d \<Longrightarrow>
     \<exists>q\<in>set (postorder h d). d_parent (h ! x) = Some q"
proof (induction h d arbitrary: x rule: postorder.induct)
  case (1 h d)
  note wf = "1.prems"(1) and d = "1.prems"(2)
  have g: "d < length h \<and> list_all (\<lambda>c. d < c) (d_subdirs (h ! d))"
    using wf_sub_valid(2)[OF wf d] d by (simp add: list_all_iff)
  note po = postorder_wf[OF wf d]
  from "1.prems"(3,4) obtain c where c: "c \<in> set (d_subdirs (h ! d))" "x \<in> set (postorder h c)"
    by (auto simp: po)
  have cl: "c < length h" "d_parent (h ! c) = Some d" using wf_sub_valid[OF wf d c(1)] by simp_all
  show ?case
  proof (cases "x = c")
    case True
    then show ?thesis using cl(2) postorder_self[of d h] by auto
  next
    case False
    from "1.IH"[OF g c(1) wf cl(1) c(2) False]
    obtain q where "q \<in> set (postorder h c)" "d_parent (h ! x) = Some q" by blast
    then show ?thesis using c(1) by (auto simp: po)
  qed
qed

lemma siblings_disjoint:
  assumes wf: "wf_heap h" and c1: "c1 < length h" and c2: "c2 < length h"
    and p1: "d_parent (h ! c1) = Some d" and p2: "d_parent (h ! c2) = Some d" and ne: "c1 \<noteq> c2"
  shows "x \<in> set (postorder h c1) \<Longrightarrow> x \<notin> set (postorder h c2)"
proof (induction x rule: less_induct)
  case (less x)
  show ?case
  proof
    assume x2: "x \<in> set (postorder h c2)"
    have d1: "d < c1" and d2: "d < c2"
      using wf_nodeD[OF wf c1] wf_nodeD[OF wf c2] p1 p2 by (simp_all add: wf_node_def)
    have no2: "d \<notin> set (postorder h c2)" using postorder_range[OF wf c2, of d] d2 by auto
    have no1: "d \<notin> set (postorder h c1)" using postorder_range[OF wf c1, of d] d1 by auto
    have xl: "x < length h" using postorder_range[OF wf c1 less.prems] by simp
    show False
    proof (cases "x = c1 \<or> x = c2")
      case True
      then show False
      proof
        assume e: "x = c1"
        from postorder_parent[OF wf c2 x2] e ne p1 no2 show False by auto
      next
        assume e: "x = c2"
        from postorder_parent[OF wf c1 less.prems] e ne p2 no1 show False by auto
      qed
    next
      case False
      from postorder_parent[OF wf c1 less.prems] False
      obtain q where q: "q \<in> set (postorder h c1)" "d_parent (h ! x) = Some q" by auto
      from postorder_parent[OF wf c2 x2] False q(2) have q2: "q \<in> set (postorder h c2)" by auto
      have "q < x" using wf_nodeD[OF wf xl] q(2) by (simp add: wf_node_def)
      from less.IH[OF this q(1)] q2 show False by simp
    qed
  qed
qed

lemma free_loop_runs:
  assumes wf: "wf_heap h" and d: "d < length h"
    and IH: "\<And>c fr. c \<in> set (d_subdirs (h ! d)) \<Longrightarrow> set fr \<inter> set (postorder h c) = {} \<Longrightarrow>
       \<exists>k. free_dir k h (Some c) fr = Some (Inr (fr @ postorder h c))"
  shows "i \<le> length (d_subdirs (h ! d)) \<Longrightarrow> d \<notin> set fr \<Longrightarrow>
     set fr \<inter> set (concat (map (postorder h) (drop i (d_subdirs (h ! d))))) = {} \<Longrightarrow>
     \<exists>k. free_loop k h d i fr =
       Some (Inr (fr @ concat (map (postorder h) (drop i (d_subdirs (h ! d))))))"
proof (induction "length (d_subdirs (h ! d)) - i" arbitrary: i fr)
  case 0
  then have "i = length (d_subdirs (h ! d))" by simp
  then have "free_loop (Suc 0) h d i fr =
      Some (Inr (fr @ concat (map (postorder h) (drop i (d_subdirs (h ! d))))))"
    using "0.prems"(2) d by simp
  then show ?case by blast
next
  case (Suc n)
  let ?subs = "d_subdirs (h ! d)"
  let ?c = "?subs ! i"
  have i: "i < length ?subs" using Suc.hyps(2) by simp
  have dr: "drop i ?subs = ?c # drop (Suc i) ?subs" using i by (simp add: Cons_nth_drop_Suc)
  have cin: "?c \<in> set ?subs" using i by simp
  have cv: "?c < length h" "d < ?c" "d_parent (h ! ?c) = Some d"
    using wf_sub_valid[OF wf d cin] by simp_all
  have "set fr \<inter> set (postorder h ?c) = {}" using Suc.prems(3) dr by auto
  from IH[OF cin this] obtain k1 where
    k1: "free_dir k1 h (Some ?c) fr = Some (Inr (fr @ postorder h ?c))" by blast
  let ?fr = "fr @ postorder h ?c"
  have dn: "d \<notin> set ?fr"
    using Suc.prems(2) postorder_range[OF wf cv(1), of d] cv(2) by auto
  have dist: "distinct ?subs" using wf_nodeD[OF wf d] by (simp add: wf_node_def)
  have later: "set (postorder h ?c) \<inter> set (postorder h c') = {}"
    if c': "c' \<in> set (drop (Suc i) ?subs)" for c'
  proof -
    have c'in: "c' \<in> set ?subs" using c' by (rule in_set_dropD)
    have "c' \<noteq> ?c"
    proof
      assume e: "c' = ?c"
      have "distinct (take (Suc i) ?subs @ drop (Suc i) ?subs)" using dist by simp
      then have "set (take (Suc i) ?subs) \<inter> set (drop (Suc i) ?subs) = {}"
        by (simp only: distinct_append)
      moreover have "?c \<in> set (take (Suc i) ?subs)"
        using i by (simp add: take_Suc_conv_app_nth)
      ultimately show False using c' e by auto
    qed
    then show ?thesis
      using siblings_disjoint[OF wf cv(1) wf_sub_valid(1)[OF wf d c'in] cv(3)
          wf_sub_valid(3)[OF wf d c'in]]
      by auto
  qed
  have "set ?fr \<inter> set (concat (map (postorder h) (drop (Suc i) ?subs))) = {}"
    using Suc.prems(3) dr later by auto
  moreover have "n = length ?subs - Suc i" "Suc i \<le> length ?subs"
    using Suc.hyps(2) i by simp_all
  ultimately obtain k2 where
    k2: "free_loop k2 h d (Suc i) ?fr =
      Some (Inr (?fr @ concat (map (postorder h) (drop (Suc i) ?subs))))"
    using Suc.hyps(1)[of "Suc i" ?fr] dn by blast
  let ?k = "max k1 k2"
  have a: "free_dir ?k h (Some ?c) fr = Some (Inr ?fr)"
    using free_dir_mono[OF k1] by simp
  have b: "free_loop ?k h d (Suc i) ?fr =
      Some (Inr (?fr @ concat (map (postorder h) (drop (Suc i) ?subs))))"
    using free_loop_mono[OF k2] by simp
  have "free_loop (Suc ?k) h d i fr =
      Some (Inr (fr @ concat (map (postorder h) (drop i ?subs))))"
    using Suc.prems(2) d i a b by (simp add: dr del: max.bounded_iff)
  then show ?case by blast
qed

lemma free_dir_runs:
  "wf_heap h \<Longrightarrow> d < length h \<Longrightarrow> set fr \<inter> set (postorder h d) = {} \<Longrightarrow>
     \<exists>k. free_dir k h (Some d) fr = Some (Inr (fr @ postorder h d))"
proof (induction h d arbitrary: fr rule: postorder.induct)
  case (1 h d)
  note wf = "1.prems"(1) and d = "1.prems"(2)
  have g: "d < length h \<and> list_all (\<lambda>c. d < c) (d_subdirs (h ! d))"
    using wf_sub_valid(2)[OF wf d] d by (simp add: list_all_iff)
  note po = postorder_wf[OF wf d]
  have kids: "\<exists>k. free_dir k h (Some c) fr' = Some (Inr (fr' @ postorder h c))"
    if "c \<in> set (d_subdirs (h ! d))" "set fr' \<inter> set (postorder h c) = {}" for c fr'
    using "1.IH"[OF g that(1) wf wf_sub_valid(1)[OF wf d that(1)] that(2)] .
  have dn: "d \<notin> set fr" using "1.prems"(3) postorder_self[of d h] by auto
  have "set fr \<inter> set (concat (map (postorder h) (drop 0 (d_subdirs (h ! d))))) = {}"
    using "1.prems"(3) by (auto simp: po)
  from free_loop_runs[OF wf d kids, of 0 fr, OF _ _ _ dn this] obtain k where
    k: "free_loop k h d 0 fr = Some (Inr (fr @ concat (map (postorder h) (d_subdirs (h ! d)))))"
    by auto
  have "d \<notin> set (concat (map (postorder h) (d_subdirs (h ! d))))"
  proof
    assume "d \<in> set (concat (map (postorder h) (d_subdirs (h ! d))))"
    then obtain c where c: "c \<in> set (d_subdirs (h ! d))" "d \<in> set (postorder h c)" by auto
    from postorder_range[OF wf wf_sub_valid(1)[OF wf d c(1)] c(2)] wf_sub_valid(2)[OF wf d c(1)]
    show False by simp
  qed
  then have "free_dir (Suc k) h (Some d) fr = Some (Inr (fr @ postorder h d))"
    using k dn d by (simp add: po)
  then show ?case by blast
qed

lemma free_distinct_both:
  "(free_dir k h d fr = Some (Inr fr') \<longrightarrow> distinct fr \<longrightarrow> distinct fr') \<and>
   (free_loop k h p i fr = Some (Inr fr') \<longrightarrow> distinct fr \<longrightarrow> distinct fr')"
proof (induction k arbitrary: d fr fr' p i)
  case 0
  then show ?case by simp
next
  case (Suc k)
  have dir: "distinct fr'" if a: "free_dir (Suc k) h d fr = Some (Inr fr')" and f: "distinct fr"
  proof (cases d)
    case None
    then show ?thesis using a f by simp
  next
    case (Some a')
    from a Some obtain f1 where f1: "free_loop k h a' 0 fr = Some (Inr f1)"
      by (auto split: option.splits sum.splits)
    then have "distinct f1" using Suc.IH f by blast
    then show ?thesis using a Some f1 by (auto split: if_splits)
  qed
  have loop: "distinct fr'" if a: "free_loop (Suc k) h p i fr = Some (Inr fr')" and f: "distinct fr"
  proof (cases "p \<notin> set fr \<and> p < length h \<and> i < length (d_subdirs (h ! p))")
    case True
    let ?c = "d_subdirs (h ! p) ! i"
    from a True obtain f1 where f1: "free_dir k h (Some ?c) fr = Some (Inr f1)"
      by (auto split: option.splits sum.splits)
    then have d1: "distinct f1" using Suc.IH f by blast
    have "free_loop k h p (i + 1) f1 = Some (Inr fr')" using a True f1 by simp
    then show ?thesis using Suc.IH d1 by blast
  next
    case False
    then show ?thesis using a f by (auto simp: deref_def split: if_splits)
  qed
  show ?case using dir loop by blast
qed

lemma postorder_distinct:
  assumes "wf_heap h" "d < length h"
  shows "distinct (postorder h d)"
proof -
  obtain k where "free_dir k h (Some d) [] = Some (Inr (postorder h d))"
    using free_dir_runs[OF assms, of "[]"] by auto
  then show ?thesis
    using free_distinct_both[where k=k and h=h and d="Some d" and fr="[]" and fr'="postorder h d"]
    by simp
qed

lemma released_after_append:
  "released_after h pre (xs @ ys) \<longleftrightarrow> released_after h pre xs \<and> released_after h (pre @ xs) ys"
  by (induction xs arbitrary: pre) auto

lemma released_after_concat:
  assumes "\<And>c pre. c \<in> set cs \<Longrightarrow> released_after h pre (f c)"
  shows "released_after h pre (concat (map f cs))"
  using assms by (induction cs arbitrary: pre) (auto simp: released_after_append)

lemma released_after_postorder:
  "wf_heap h \<Longrightarrow> d < length h \<Longrightarrow> released_after h pre (postorder h d)"
proof (induction h d arbitrary: pre rule: postorder.induct)
  case (1 h d)
  note wf = "1.prems"(1) and d = "1.prems"(2)
  have g: "d < length h \<and> list_all (\<lambda>c. d < c) (d_subdirs (h ! d))"
    using wf_sub_valid(2)[OF wf d] d by (simp add: list_all_iff)
  have kids: "released_after h pre' (postorder h c)" if "c \<in> set (d_subdirs (h ! d))" for c pre'
    using "1.IH"[OF g that wf wf_sub_valid(1)[OF wf d that]] .
  have "released_after h pre (concat (map (postorder h) (d_subdirs (h ! d))))"
    using kids by (rule released_after_concat)
  moreover have "list_all (\<lambda>c. c \<in> set (pre @ concat (map (postorder h) (d_subdirs (h ! d)))))
      (d_subdirs (h ! d))"
    using postorder_self by (auto simp: list_all_iff)
  ultimately show ?case
    by (simp add: postorder_wf[OF wf d] released_after_append)
qed

lemma all_less_Suc_split: "(\<forall>i<Suc n. P i) \<longleftrightarrow> P 0 \<and> (\<forall>j<n. P (Suc j))"
  by (auto simp: less_Suc_eq_0_disj)

lemma released_after_iff:
  "released_after h pre tr \<longleftrightarrow>
     (\<forall>i<length tr. \<forall>c\<in>set (d_subdirs (h ! (tr ! i))). c \<in> set pre \<union> set (take i tr))"
proof (induction tr arbitrary: pre)
  case Nil
  then show ?case by simp
next
  case (Cons x xs)
  show ?case
    using Cons.IH[of "pre @ [x]"]
    by (simp add: list_all_iff all_less_Suc_split) blast
qed

lemma children_first_iff: "children_first h tr \<longleftrightarrow> released_after h [] tr"
  by (auto simp add: children_first_def released_after_iff list_all_iff)

lemma wf_heap7: "wf_heap heap7"
  by code_simp

lemma wf_parent_valid:
  assumes "wf_heap h" "p < length h" "d_parent (h ! p) = Some q"
  shows "q < length h"
  using wf_nodeD[OF assms(1,2)] assms(2,3) by (simp add: wf_node_def)

lemma pwd_walk_L2_total:
  "wf_heap h \<Longrightarrow> (\<And>a. p = Some a \<Longrightarrow> a < length h) \<Longrightarrow> length parts \<le> MAX_DEPTH \<Longrightarrow>
     \<exists>r. pwd_walk_L2 h p parts = Inr r \<and> length r \<le> MAX_DEPTH"
proof (induction h p parts rule: pwd_walk_L2.induct)
  case (1 h p parts)
  show ?case
  proof (cases p)
    case None
    then show ?thesis using "1.prems"(3) by (subst pwd_walk_L2.simps) simp
  next
    case (Some a)
    then have a: "a < length h" using "1.prems"(2) by simp
    show ?thesis
    proof (cases "length parts < MAX_DEPTH")
      case True
      have "\<exists>r. pwd_walk_L2 h (d_parent (h ! a)) (parts @ [d_name (h ! a)]) = Inr r \<and>
          length r \<le> MAX_DEPTH"
      proof (rule "1.IH"[OF Some True "1.prems"(1)])
        show "\<And>q. d_parent (h ! a) = Some q \<Longrightarrow> q < length h"
          using wf_parent_valid[OF "1.prems"(1) a] by simp
        show "length (parts @ [d_name (h ! a)]) \<le> MAX_DEPTH" using True by simp
      qed
      then show ?thesis using Some True a by (subst pwd_walk_L2.simps) simp
    next
      case False
      then show ?thesis using Some "1.prems"(3) by (subst pwd_walk_L2.simps) simp
    qed
  qed
qed

lemma pwd_walk_total:
  "wf_heap h \<Longrightarrow> (\<And>a. p = Some a \<Longrightarrow> a < length h) \<Longrightarrow>
     pwd_walk h p parts = Inl ArrayOverflow \<or> (\<exists>r. pwd_walk h p parts = Inr r)"
proof (induction h p parts rule: pwd_walk.induct)
  case (1 h p parts)
  show ?case
  proof (cases p)
    case None
    then show ?thesis by (subst (1 2) pwd_walk.simps) simp
  next
    case (Some a)
    then have a: "a < length h" using "1.prems"(2) by simp
    show ?thesis
    proof (cases "64 \<le> length parts")
      case True
      then show ?thesis using Some by (subst (1 2) pwd_walk.simps) simp
    next
      case False
      have "pwd_walk h (d_parent (h ! a)) (parts @ [d_name (h ! a)]) = Inl ArrayOverflow \<or>
          (\<exists>r. pwd_walk h (d_parent (h ! a)) (parts @ [d_name (h ! a)]) = Inr r)"
      proof (rule "1.IH"[OF Some False "1.prems"(1)])
        show "\<And>q. d_parent (h ! a) = Some q \<Longrightarrow> q < length h"
          using wf_parent_valid[OF "1.prems"(1) a] by simp
      qed
      then show ?thesis using Some False a by (subst (1 2) pwd_walk.simps) simp
    qed
  qed
qed

lemma ls_subdirs_total:
  "\<forall>p\<in>set ps. p < length h \<Longrightarrow>
     (\<exists>r. ls_subdirs h l ps = Inr r) \<and> (\<exists>r. ls_subdirs_L2 h l ps = Inr r)"
  by (induction ps) auto

lemma exec_wf_query:
  assumes "wf_state s"
  shows "exec lim Pwd s = Inl ArrayOverflow \<or> (\<exists>out. exec lim Pwd s = Inr (out, s))"
    and "\<exists>out. exec_L2 lim Pwd s = Inr (out, s)"
    and "\<exists>out. exec lim (Ls a) s = Inr (out, s)"
    and "\<exists>out. exec_L2 lim (Ls a) s = Inr (out, s)"
proof -
  have wf: "wf_heap (heap s)" and c: "cwd s < length (heap s)"
    using assms by (simp_all add: wf_state_def)
  have "pwd_walk (heap s) (Some (cwd s)) [] = Inl ArrayOverflow \<or>
      (\<exists>r. pwd_walk (heap s) (Some (cwd s)) [] = Inr r)"
    by (rule pwd_walk_total[OF wf]) (use c in simp)
  then show "exec lim Pwd s = Inl ArrayOverflow \<or> (\<exists>out. exec lim Pwd s = Inr (out, s))"
    using c by (auto simp: pwd_cmd_def)
  have "\<exists>r. pwd_walk_L2 (heap s) (Some (cwd s)) [] = Inr r \<and> length r \<le> MAX_DEPTH"
    by (rule pwd_walk_L2_total[OF wf]) (use c in simp_all)
  then show "\<exists>out. exec_L2 lim Pwd s = Inr (out, s)"
    using c by (auto simp: pwd_cmd_L2_def)
  have sv: "\<forall>p\<in>set (d_subdirs (heap s ! cwd s)). p < length (heap s)"
    using wf_sub_valid(1)[OF wf c] by blast
  show "\<exists>out. exec lim (Ls a) s = Inr (out, s)"
    using ls_subdirs_total[OF sv, of "a = Some ''-l''"] c by (auto simp: ls_cmd_def Let_def)
  show "\<exists>out. exec_L2 lim (Ls a) s = Inr (out, s)"
    using ls_subdirs_total[OF sv, of "a = Some ''-l''"] c by (auto simp: ls_cmd_L2_def Let_def)
qed

lemma total_touch:
  assumes "wf_heap h" "c < length h"
  shows "\<exists>out h'. touch_cmd h c a = Inr (out, h')" "\<exists>out h'. touch_cmd_L2 h c a = Inr (out, h')"
  using assms
  by (cases a; simp add: touch_cmd_eq touch_cmd_L2_eq; simp add: touch_cmd_def touch_cmd_L2_def)+

lemma total_rm:
  assumes "c < length h"
  shows "\<exists>out h'. rm_cmd h c a = Inr (out, h')" "\<exists>out h'. rm_cmd_L2 h c a = Inr (out, h')"
  using assms
  by (cases a; simp add: rm_cmd_eq rm_cmd_L2_eq; simp add: rm_cmd_def rm_cmd_L2_def)+

lemma total_mkdir:
  assumes "wf_heap h" "c < length h"
  shows "\<exists>out h'. mkdir_cmd lim h c a = Inr (out, h')"
    "\<exists>out h'. mkdir_cmd_L2 lim h c a = Inr (out, h')"
  using assms
  by (cases a; simp add: mkdir_cmd_eq mkdir_cmd_L2_eq; simp add: mkdir_cmd_def mkdir_cmd_L2_def)+

lemma total_mv:
  assumes "wf_heap h" "c < length h"
  shows "\<exists>out h'. mv_cmd h c a b = Inr (out, h')" "\<exists>out h'. mv_cmd_L2 h c a b = Inr (out, h')"
    "\<exists>out h'. chmod_cmd h c a b = Inr (out, h')"
  using assms
  by (cases a; cases b; simp add: mv_cmd_eq mv_cmd_L2_eq chmod_cmd_eq;
      simp add: mv_cmd_def mv_cmd_L2_def chmod_cmd_def)+

lemma total_cd:
  assumes "wf_heap h" "c < length h"
  shows "\<exists>out c'. cd_cmd h c a r = Inr (out, c')" "\<exists>out c'. cd_cmd_L2 h c a r = Inr (out, c')"
  using assms
  by (cases a; simp add: cd_cmd_eq cd_cmd_L2_eq; simp add: cd_cmd_def cd_cmd_L2_def)+

lemma exec_wf_update:
  assumes "wf_state s" "c \<noteq> Pwd"
  shows "\<exists>out s'. exec lim c s = Inr (out, s') \<and> wf_state s'"
proof -
  have wf: "wf_heap (heap s)" and cw: "cwd s < length (heap s)" and r: "root s = 0"
    using assms(1) by (simp_all add: wf_state_def)
  have z: "0 < length (heap s)" using cw by (cases "heap s") simp_all
  show ?thesis
  proof (cases c)
    case Pwd
    then show ?thesis using assms(2) by simp
  next
    case (Ls a)
    then show ?thesis using exec_wf_query(3)[OF assms(1)] assms(1) by blast
  next
    case (Touch a)
    obtain out h' where e: "touch_cmd (heap s) (cwd s) a = Inr (out, h')"
      using total_touch(1)[OF wf cw] by blast
    then show ?thesis
      using Touch wf_touch[OF wf cw e] len_files_cmds(1)[OF cw e] cw r
      by (simp add: on_heap_def wf_state_def)
  next
    case (Rm a)
    obtain out h' where e: "rm_cmd (heap s) (cwd s) a = Inr (out, h')"
      using total_rm(1)[OF cw] by blast
    then show ?thesis
      using Rm wf_rm[OF wf cw e] len_files_cmds(3)[OF cw e] cw r
      by (simp add: on_heap_def wf_state_def)
  next
    case (Mv a b)
    obtain out h' where e: "mv_cmd (heap s) (cwd s) a b = Inr (out, h')"
      using total_mv(1)[OF wf cw] by blast
    then show ?thesis
      using Mv wf_mv[OF wf cw e] len_files_cmds(5)[OF cw e] cw r
      by (simp add: on_heap_def wf_state_def)
  next
    case (Mkdir a)
    obtain out h' where e: "mkdir_cmd lim (heap s) (cwd s) a = Inr (out, h')"
      using total_mkdir(1)[OF wf cw] by blast
    then show ?thesis
      using Mkdir wf_mkdir[OF wf cw e] cw r
      by (simp add: on_heap_def wf_state_def)
  next
    case (Cd a)
    obtain out c' where e: "cd_cmd (heap s) (cwd s) a 0 = Inr (out, c')"
      using total_cd(1)[OF wf cw] by blast
    then show ?thesis
      using Cd wf_cd[OF wf cw z e] wf r by (simp add: wf_state_def)
  next
    case (Chmod a b)
    then show ?thesis using assms(1) by simp
  next
    case Other
    then show ?thesis using assms(1) by simp
  qed
qed

lemma exec_L2_wf:
  assumes "wf_state s"
  shows "\<exists>out s'. exec_L2 lim c s = Inr (out, s') \<and> wf_state s'"
proof -
  have wf: "wf_heap (heap s)" and cw: "cwd s < length (heap s)" and r: "root s = 0"
    using assms(1) by (simp_all add: wf_state_def)
  have z: "0 < length (heap s)" using cw by (cases "heap s") simp_all
  show ?thesis
  proof (cases c)
    case Pwd
    then show ?thesis using exec_wf_query(2)[OF assms(1)] assms(1) by blast
  next
    case (Ls a)
    then show ?thesis using exec_wf_query(4)[OF assms(1)] assms(1) by blast
  next
    case (Touch a)
    obtain out h' where e: "touch_cmd_L2 (heap s) (cwd s) a = Inr (out, h')"
      using total_touch(2)[OF wf cw] by blast
    then show ?thesis
      using Touch wf_touch_L2[OF wf cw e] len_files_cmds(2)[OF cw e] cw r
      by (simp add: on_heap_def wf_state_def)
  next
    case (Rm a)
    obtain out h' where e: "rm_cmd_L2 (heap s) (cwd s) a = Inr (out, h')"
      using total_rm(2)[OF cw] by blast
    then show ?thesis
      using Rm wf_rm_L2[OF wf cw e] len_files_cmds(4)[OF cw e] cw r
      by (simp add: on_heap_def wf_state_def)
  next
    case (Mv a b)
    obtain out h' where e: "mv_cmd_L2 (heap s) (cwd s) a b = Inr (out, h')"
      using total_mv(2)[OF wf cw] by blast
    then show ?thesis
      using Mv wf_mv_L2[OF wf cw e] len_files_cmds(6)[OF cw e] cw r
      by (simp add: on_heap_def wf_state_def)
  next
    case (Mkdir a)
    obtain out h' where e: "mkdir_cmd_L2 lim (heap s) (cwd s) a = Inr (out, h')"
      using total_mkdir(2)[OF wf cw] by blast
    then show ?thesis
      using Mkdir wf_mkdir_L2[OF wf cw e] cw r
      by (simp add: on_heap_def wf_state_def)
  next
    case (Cd a)
    obtain out c' where e: "cd_cmd_L2 (heap s) (cwd s) a 0 = Inr (out, c')"
      using total_cd(2)[OF wf cw] by blast
    then show ?thesis
      using Cd wf_cd_L2[OF wf cw z e] wf r by (simp add: wf_state_def)
  next
    case (Chmod a b)
    obtain out h' where e: "chmod_cmd (heap s) (cwd s) a b = Inr (out, h')"
      using total_mv(3)[OF wf cw] by blast
    then show ?thesis
      using Chmod wf_chmod[OF wf cw e] len_files_cmds(7)[OF cw e] cw r
      by (simp add: on_heap_def wf_state_def)
  next
    case Other
    then show ?thesis using assms(1) by simp
  qed
qed

lemma run_wf_from:
  "wf_state s \<Longrightarrow>
     run lim cs s = Inl ArrayOverflow \<or> (\<exists>outs s'. run lim cs s = Inr (outs, s') \<and> wf_state s')"
proof (induction cs arbitrary: s)
  case Nil
  then show ?case by simp
next
  case (Cons c cs)
  show ?case
  proof (cases "exec lim c s = Inl ArrayOverflow")
    case True
    then show ?thesis by simp
  next
    case False
    have "\<exists>out s1. exec lim c s = Inr (out, s1) \<and> wf_state s1"
    proof (cases "c = Pwd")
      case True
      then show ?thesis using exec_wf_query(1)[OF Cons.prems, of lim] False Cons.prems by auto
    next
      case False
      then show ?thesis using exec_wf_update[OF Cons.prems] by blast
    qed
    then obtain out s1 where s1: "exec lim c s = Inr (out, s1)" "wf_state s1" by blast
    from Cons.IH[OF s1(2)] show ?thesis using s1(1) by auto
  qed
qed

lemma run_L2_wf_from:
  "wf_state s \<Longrightarrow> \<exists>outs s'. run_L2 lim cs s = Inr (outs, s') \<and> wf_state s'"
proof (induction cs arbitrary: s)
  case Nil
  then show ?case by simp
next
  case (Cons c cs)
  obtain out s1 where s1: "exec_L2 lim c s = Inr (out, s1)" "wf_state s1"
    using exec_L2_wf[OF Cons.prems] by blast
  from Cons.IH[OF s1(2)] show ?case using s1(1) by auto
qed

lemma fresh_batch_short:
  "distinct ns \<Longrightarrow> \<forall>n\<in>set ns. length n < NAME_LEN \<and> n \<notin> set st \<Longrightarrow> fresh_batch st ns"
proof (induction ns arbitrary: st)
  case Nil
  then show ?case by simp
next
  case (Cons n ns)
  have "\<forall>m\<in>set ns. length m < NAME_LEN \<and> m \<notin> set (st @ [copy_name n])"
    using Cons.prems by (auto simp: copy_name_id)
  from Cons.IH[OF _ this] Cons.prems show ?case by simp
qed

lemma capacity_of_fresh_batch:
  assumes "wf_state s" "d_files (heap s ! cwd s) = []"
    and "length names = MAX_FILES + 1"
    and "fresh_batch (child_names (heap s) (cwd s)) names"
  shows "\<exists>s16. run lim (touch_all (take MAX_FILES names)) s =
                  Inr (map created (take MAX_FILES names), s16) \<and>
               run_L2 lim (touch_all (take MAX_FILES names)) s =
                  Inr (map created (take MAX_FILES names), s16) \<and>
               d_files (heap s16 ! cwd s16) = map new_file (take MAX_FILES names) \<and>
               length (d_files (heap s16 ! cwd s16)) = MAX_FILES \<and>
               exec lim (Touch (Some (names ! MAX_FILES))) s16 =
                  Inr (Err CapacityExceeded ''file limit reached'', s16) \<and>
               exec_L2 lim (Touch (Some (names ! MAX_FILES))) s16 =
                  Inr (Err CapacityExceeded ''file limit reached'', s16)"
proof -
  have wf: "wf_heap (heap s)" and c: "cwd s < length (heap s)"
    using assms(1) by (simp_all add: wf_state_def)
  let ?ns = "take MAX_FILES names"
  let ?h16 = "set_files (heap s) (cwd s) (map new_file ?ns)"
  let ?s16 = "s\<lparr>heap := ?h16\<rparr>"
  have len: "length ?ns = MAX_FILES" using assms(3) by simp
  have r: "run lim (touch_all ?ns) s = Inr (map created ?ns, ?s16)"
    "run_L2 lim (touch_all ?ns) s = Inr (map created ?ns, ?s16)"
    using touch_many[OF wf c fresh_batch_take[OF assms(4)], of MAX_FILES lim] assms(2) len
    by simp_all
  have wf16: "wf_heap ?h16"
    by (intro wf_heap_set_files[OF wf]) (simp add: list_all_iff new_file_def)
  have c16: "cwd s < length ?h16" using c by simp
  have fs: "d_files (?h16 ! cwd s) = map new_file ?ns" using c by simp
  have "take (Suc MAX_FILES) names = ?ns @ [names ! MAX_FILES]"
    using assms(3) by (intro take_Suc_conv_app_nth) simp
  then have split: "names = ?ns @ [names ! MAX_FILES]"
    using assms(3) by simp
  have "fresh_batch (child_names (heap s) (cwd s)) (?ns @ [names ! MAX_FILES])"
    by (subst split[symmetric]) (rule assms(4))
  then have lf: "names ! MAX_FILES \<notin> set (child_names (heap s) (cwd s)) \<and>
      names ! MAX_FILES \<notin> copy_name ` set ?ns"
    by (rule fresh_batch_last)
  then have last_fresh: "names ! MAX_FILES \<notin> set (child_names (heap s) (cwd s))"
    and "names ! MAX_FILES \<notin> copy_name ` set ?ns"
    by simp_all
  then have nf: "names ! MAX_FILES \<notin> set (file_names ?h16 (cwd s))"
    using c by (auto simp: file_names_def new_file_def)
  have nc: "names ! MAX_FILES \<notin> set (child_names ?h16 (cwd s))"
    using nf last_fresh c by (simp add: child_names_def dir_names_set_files[OF wf c])
  have e: "exec lim (Touch (Some (names ! MAX_FILES))) ?s16 =
        Inr (Err CapacityExceeded ''file limit reached'', ?s16)"
      "exec_L2 lim (Touch (Some (names ! MAX_FILES))) ?s16 =
        Inr (Err CapacityExceeded ''file limit reached'', ?s16)"
    using nc nf fs len
    by (simp_all add: on_heap_def touch_cmd_eq[OF wf16 c16] touch_cmd_L2_eq[OF wf16 c16])
  show ?thesis
    using r e fs len by (intro exI[of _ ?s16]) simp
qed

section \<open>The claims\<close>

text \<open>C1. After \<^verbatim>\<open>mkdir a; cd a; mkdir b; cd b\<close> from the root, \<^verbatim>\<open>pwd\<close> is claimed to print
  \<^verbatim>\<open>/a/b\<close>. Both files print \<^verbatim>\<open>//a/b\<close>: the output loop prints the root's name
  \<^verbatim>\<open>"/"\<close> and then the separator, because its test for the root name is made at
  \<open>i = 0\<close>, the entry of the current directory, and not at the root's entry.\<close>

theorem pwd_nested_prints_double_slash:
  "map_sum id (last \<circ> fst) (run 3 nested_pwd init) = Inr (Ok [''//a/b'']) \<and>
   map_sum id (last \<circ> fst) (run_L2 3 nested_pwd init) = Inr (Ok [''//a/b''])"
  by code_simp

text \<open>C2, as amended. Every script of \<^verbatim>\<open>touch\<close>, \<^verbatim>\<open>mkdir\<close>, \<^verbatim>\<open>mv\<close>, \<^verbatim>\<open>rm\<close> and \<^verbatim>\<open>cd\<close>
  commands whose names to be stored (the argument of \<^verbatim>\<open>touch\<close> and \<^verbatim>\<open>mkdir\<close>, the new
  name of \<^verbatim>\<open>mv\<close>) have at most \<open>NAME_LEN - 1\<close> bytes runs from the initial state without a
  fault and ends in a well-formed state in which no two direct children of any
  directory share a name. In that state, for a name \<open>n\<close> of at most \<open>NAME_LEN - 1\<close> bytes:
  after a successful \<^verbatim>\<open>touch n\<close>, \<^verbatim>\<open>mkdir n\<close> fails and changes nothing, with
  \<open>NameCollision\<close>, or with \<open>CapacityExceeded\<close> when the directory already has
  \<open>MAX_SUBDIRS\<close> sub-directories (\<^verbatim>\<open>mkdir\<close> tests the capacity first); after a successful
  \<^verbatim>\<open>mkdir n\<close>, \<^verbatim>\<open>touch n\<close> fails and changes nothing, with \<open>NameCollision\<close> in
  \<^verbatim>\<open>linux-commands.c\<close>, and in \<^verbatim>\<open>L2.c\<close> with \<open>NameCollision\<close> or, when the directory
  already has \<open>MAX_FILES\<close> files, with \<open>CapacityExceeded\<close>.\<close>

theorem names_unique:
  assumes "list_all tree_cmd cs" "list_all short_arg cs" "length n < NAME_LEN"
  shows "(\<exists>outs s. run lim cs init = Inr (outs, s) \<and> wf_state s \<and> unique_names (heap s) \<and>
            (touch_cmd (heap s) (cwd s) (Some n) = Inr (Ok m, h1) \<longrightarrow>
               mkdir_cmd lim h1 (cwd s) (Some n) =
                 Inr (if MAX_SUBDIRS \<le> length (d_subdirs (heap s ! cwd s))
                      then Err CapacityExceeded ''subdir limit reached''
                      else Err NameCollision ''name already exists'', h1)) \<and>
            (mkdir_cmd lim (heap s) (cwd s) (Some n) = Inr (Ok m, h1) \<longrightarrow>
               touch_cmd h1 (cwd s) (Some n) =
                 Inr (Err NameCollision ''name already exists'', h1))) \<and>
         (\<exists>outs s. run_L2 lim cs init = Inr (outs, s) \<and> wf_state s \<and> unique_names (heap s) \<and>
            (touch_cmd_L2 (heap s) (cwd s) (Some n) = Inr (Ok m, h1) \<longrightarrow>
               mkdir_cmd_L2 lim h1 (cwd s) (Some n) =
                 Inr (if MAX_SUBDIRS \<le> length (d_subdirs (heap s ! cwd s))
                      then Err CapacityExceeded ''subdir limit reached''
                      else Err NameCollision (''name '' @ quoted n @ '' already exists''), h1)) \<and>
            (mkdir_cmd_L2 lim (heap s) (cwd s) (Some n) = Inr (Ok m, h1) \<longrightarrow>
               touch_cmd_L2 h1 (cwd s) (Some n) =
                 Inr (if MAX_FILES \<le> length (d_files (heap s ! cwd s))
                      then Err CapacityExceeded ''file limit reached''
                      else Err NameCollision
                             (''name '' @ quoted n @ '' already used by directory''), h1)))"
proof -
  obtain outs s where s: "run lim cs init = Inr (outs, s)" "wf_state s" "unique_names (heap s)"
    using run_tree_cmds[OF wf_init unique_init assms(1,2)] by blast
  obtain outs' s' where s': "run_L2 lim cs init = Inr (outs', s')" "wf_state s'"
      "unique_names (heap s')"
    using run_L2_tree_cmds[OF wf_init unique_init assms(1,2)] by blast
  have wf: "wf_heap (heap s)" "cwd s < length (heap s)"
    and wf': "wf_heap (heap s')" "cwd s' < length (heap s')"
    using s(2) s'(2) by (simp_all add: wf_state_def)
  have A: "touch_cmd (heap s) (cwd s) (Some n) = Inr (Ok m, h1) \<longrightarrow>
       mkdir_cmd lim h1 (cwd s) (Some n) =
         Inr (if MAX_SUBDIRS \<le> length (d_subdirs (heap s ! cwd s))
              then Err CapacityExceeded ''subdir limit reached''
              else Err NameCollision ''name already exists'', h1)"
    using touch_then_mkdir(1)[OF wf assms(3)] by blast
  have B: "mkdir_cmd lim (heap s) (cwd s) (Some n) = Inr (Ok m, h1) \<longrightarrow>
       touch_cmd h1 (cwd s) (Some n) = Inr (Err NameCollision ''name already exists'', h1)"
    using mkdir_then_touch(1)[OF wf assms(3)] by blast
  have A': "touch_cmd_L2 (heap s') (cwd s') (Some n) = Inr (Ok m, h1) \<longrightarrow>
       mkdir_cmd_L2 lim h1 (cwd s') (Some n) =
         Inr (if MAX_SUBDIRS \<le> length (d_subdirs (heap s' ! cwd s'))
              then Err CapacityExceeded ''subdir limit reached''
              else Err NameCollision (''name '' @ quoted n @ '' already exists''), h1)"
    using touch_then_mkdir(2)[OF wf' assms(3)] by blast
  have B': "mkdir_cmd_L2 lim (heap s') (cwd s') (Some n) = Inr (Ok m, h1) \<longrightarrow>
       touch_cmd_L2 h1 (cwd s') (Some n) =
         Inr (if MAX_FILES \<le> length (d_files (heap s' ! cwd s'))
              then Err CapacityExceeded ''file limit reached''
              else Err NameCollision (''name '' @ quoted n @ '' already used by directory''), h1)"
    using mkdir_then_touch(2)[OF wf' assms(3)] by blast
  show ?thesis
    using s s' A B A' B' by blast
qed

theorem names_unique_witness:
  "list_all tree_cmd [Touch (Some ''f''), Mkdir (Some ''d''), Cd (Some ''d''), Touch (Some ''g'')] \<and>
   list_all short_arg [Touch (Some ''f''), Mkdir (Some ''d''), Cd (Some ''d''), Touch (Some ''g'')] \<and>
   length ''f'' < NAME_LEN \<and>
   (\<exists>outs s. run 2 [Touch (Some ''f''), Mkdir (Some ''d''), Cd (Some ''d''), Touch (Some ''g'')] init =
        Inr (outs, s) \<and> wf_state s \<and> unique_names (heap s))"
proof -
  have a: "list_all tree_cmd [Touch (Some ''f''), Mkdir (Some ''d''), Cd (Some ''d''), Touch (Some ''g'')]"
    "list_all short_arg [Touch (Some ''f''), Mkdir (Some ''d''), Cd (Some ''d''), Touch (Some ''g'')]"
    "length ''f'' < NAME_LEN"
    by (simp_all add: short_arg_def NAME_LEN_def)
  from names_unique[OF a, of 2] a show ?thesis by blast
qed

text \<open>C2 as stated fails twice. After \<^verbatim>\<open>mkdir d1; ...; mkdir d16; touch f\<close> the command
  \<^verbatim>\<open>mkdir f\<close> is refused with \<open>CapacityExceeded\<close>, not \<open>NameCollision\<close>. And two names
  of 32 bytes with the same first 31 bytes are both accepted by \<^verbatim>\<open>touch\<close> and stored
  under one name.\<close>

theorem names_unique_counterexample:
  "map_sum id (\<lambda>(outs, s). drop 16 outs) (run 17 full_then_clash init) =
     Inr [created ''f'', Err CapacityExceeded ''subdir limit reached''] \<and>
   map_sum id (\<lambda>(outs, s). drop 16 outs) (run_L2 17 full_then_clash init) =
     Inr [created ''f'', Err CapacityExceeded ''subdir limit reached''] \<and>
   map_sum id (\<lambda>(outs, s). (outs, file_names (heap s) 0))
     (run 1 [Touch (Some long_x), Touch (Some long_y)] init) =
     Inr ([created long_x, created long_y], [replicate 31 CHR ''a'', replicate 31 CHR ''a''])"
  by code_simp

text \<open>C3, as amended. In every well-formed state whose current directory holds no
  file, for seventeen distinct names of at most \<open>NAME_LEN - 1\<close> bytes, none of them the
  name of an entry of the directory: the first \<open>MAX_FILES = 16\<close> calls of \<^verbatim>\<open>touch\<close>
  succeed and leave exactly these sixteen files, and the next call reports
  \<open>CapacityExceeded\<close> and leaves the whole state as it was. Both files.\<close>

theorem touch_capacity:
  assumes "wf_state s" "d_files (heap s ! cwd s) = []"
    and "length names = MAX_FILES + 1" "distinct names"
    and "\<forall>n\<in>set names. length n < NAME_LEN \<and> n \<notin> set (child_names (heap s) (cwd s))"
  shows "\<exists>s16. run lim (touch_all (take MAX_FILES names)) s =
                  Inr (map created (take MAX_FILES names), s16) \<and>
               run_L2 lim (touch_all (take MAX_FILES names)) s =
                  Inr (map created (take MAX_FILES names), s16) \<and>
               d_files (heap s16 ! cwd s16) = map new_file (take MAX_FILES names) \<and>
               length (d_files (heap s16 ! cwd s16)) = MAX_FILES \<and>
               exec lim (Touch (Some (names ! MAX_FILES))) s16 =
                  Inr (Err CapacityExceeded ''file limit reached'', s16) \<and>
               exec_L2 lim (Touch (Some (names ! MAX_FILES))) s16 =
                  Inr (Err CapacityExceeded ''file limit reached'', s16)"
proof -
  have "fresh_batch (child_names (heap s) (cwd s)) names"
    using assms(4,5) by (intro fresh_batch_short) auto
  from capacity_of_fresh_batch[OF assms(1-3) this] show ?thesis .
qed

theorem touch_capacity_witness:
  "wf_state init \<and> d_files (heap init ! cwd init) = [] \<and> length batch17 = MAX_FILES + 1 \<and>
   distinct batch17 \<and> list_all (\<lambda>n. length n < NAME_LEN) batch17 \<and>
   child_names (heap init) (cwd init) = [] \<and>
   (\<exists>s16. run 1 (touch_all (take MAX_FILES batch17)) init =
             Inr (map created (take MAX_FILES batch17), s16) \<and>
           length (d_files (heap s16 ! cwd s16)) = MAX_FILES \<and>
           exec 1 (Touch (Some (batch17 ! MAX_FILES))) s16 =
             Inr (Err CapacityExceeded ''file limit reached'', s16))"
proof -
  have a: "d_files (heap init ! cwd init) = []" "child_names (heap init) (cwd init) = []"
    by (simp_all add: init_def child_names_def file_names_def dir_names_def)
  have b: "length batch17 = MAX_FILES + 1" "distinct batch17"
      "list_all (\<lambda>n. length n < NAME_LEN) batch17"
    by code_simp+
  have f: "\<forall>n\<in>set batch17. length n < NAME_LEN \<and> n \<notin> set (child_names (heap init) (cwd init))"
    using b(3) by (simp add: a(2) list_all_iff)
  from touch_capacity[OF wf_init a(1) b(1,2) f, of 1] wf_init a b
  show ?thesis by blast
qed

text \<open>C3 as stated fails in a directory that already holds a file: at the root, after
  \<^verbatim>\<open>touch x\<close>, the fresh names \<^verbatim>\<open>f1\<close>, ..., \<^verbatim>\<open>f15\<close> are accepted and the sixteenth,
  \<^verbatim>\<open>f16\<close>, is refused with \<open>CapacityExceeded\<close>. And of two different names, 31 times
  \<^verbatim>\<open>a\<close> followed by \<^verbatim>\<open>x\<close> and 31 times \<^verbatim>\<open>a\<close>, both new to an empty directory, the second
  is refused with \<open>NameCollision\<close>, because the first is stored cut to 31 bytes.\<close>

theorem touch_capacity_counterexample:
  "distinct batch17 \<and> length batch17 = MAX_FILES + 1 \<and> ''x'' \<notin> set batch17 \<and>
   batch17 ! 15 = ''f16'' \<and>
   run 1 (Touch (Some ''x'') # touch_all (take 15 batch17)) init =
     Inr (created ''x'' # map created (take 15 batch17), crowded) \<and>
   exec 1 (Touch (Some ''f16'')) crowded =
     Inr (Err CapacityExceeded ''file limit reached'', crowded) \<and>
   long_x \<noteq> replicate 31 CHR ''a'' \<and>
   map_sum id fst (run 1 (touch_all [long_x, replicate 31 CHR ''a'']) init) =
     Inr [created long_x, Err NameCollision ''name already exists'']"
proof -
  have y: "long_x \<noteq> replicate 31 CHR ''a'' \<and>
      map_sum id fst (run 1 (touch_all [long_x, replicate 31 CHR ''a'']) init) =
        Inr [created long_x, Err NameCollision ''name already exists'']"
    by code_simp
  have n: "distinct batch17 \<and> length batch17 = MAX_FILES + 1 \<and> ''x'' \<notin> set batch17 \<and>
      batch17 ! 15 = ''f16''"
    by code_simp
  have wf: "wf_heap (heap init)" and c: "cwd init < length (heap init)"
    using wf_init by (simp_all add: wf_state_def)
  have e: "child_names (heap init) (cwd init) = []" "d_files (heap init ! cwd init) = []"
      "cwd init = 0"
    by (simp_all add: init_def child_names_def file_names_def dir_names_def)
  have e0: "d_files (heap init ! 0) = []" by (simp add: init_def)
  have l: "length (''x'' # take 15 batch17) = 16" using n by (simp add: MAX_FILES_def)
  have fb: "fresh_batch (child_names (heap init) (cwd init)) (''x'' # take 15 batch17)"
    using crowded_fresh by (simp only: e(1))
  have cap: "length (d_files (heap init ! cwd init)) + length (''x'' # take 15 batch17) \<le> MAX_FILES"
    unfolding e(2) l by (simp add: MAX_FILES_def)
  have r: "run 1 (touch_all (''x'' # take 15 batch17)) init =
      Inr (map created (''x'' # take 15 batch17), crowded)"
    using touch_many[OF wf c fb cap, of 1, THEN conjunct1]
    unfolding e(3) e0 crowded_def append_Nil .
  have wfc: "wf_heap (heap crowded)"
    unfolding crowded_def
    by (simp add: wf_heap_set_files[OF wf] list_all_iff new_file_def del: set_simps list.map)
  have cc: "cwd crowded < length (heap crowded)" "cwd crowded = 0"
    by (simp_all add: crowded_def init_def)
  have fs: "d_files (heap crowded ! 0) = map new_file (''x'' # take 15 batch17)"
    by (simp add: crowded_def init_def del: list.map)
  have dn: "dir_names (heap crowded) 0 = []"
    by (simp add: crowded_def init_def dir_names_def)
  have short: "\<forall>y \<in> set (''x'' # take 15 batch17). copy_name y = y"
    by code_simp
  have "file_names (heap crowded) 0 = ''x'' # take 15 batch17"
    using short by (simp add: file_names_def fs new_file_def map_idI del: list.map set_simps)
  then have nc: "''f16'' \<notin> set (child_names (heap crowded) 0)"
    using f16_new dn by (simp add: child_names_def del: set_simps)
  have full: "MAX_FILES \<le> length (d_files (heap crowded ! 0))"
    using l by (simp add: fs MAX_FILES_def del: list.map)
  have x: "exec 1 (Touch (Some ''f16'')) crowded =
      Inr (Err CapacityExceeded ''file limit reached'', crowded)"
    using touch_cmd_eq[OF wfc cc(1), of "''f16''"] nc full
    by (simp add: on_heap_def cc(2))
  have r': "run 1 (Touch (Some ''x'') # touch_all (take 15 batch17)) init =
      Inr (created ''x'' # map created (take 15 batch17), crowded)"
    using r by (simp add: touch_all_def)
  show ?thesis using n r' x y by blast
qed

text \<open>C4. In every well-formed state: \<^verbatim>\<open>cd\<close> with a name that is none of the three tokens
  and names no sub-directory of the current directory reports \<open>NotFound\<close> and returns the
  current directory; \<^verbatim>\<open>cd ..\<close> at the root returns the root; \<^verbatim>\<open>cd .\<close> returns the current
  directory; \<^verbatim>\<open>cd /\<close> returns the root. Both files.\<close>

theorem cd_cases:
  assumes "wf_state s"
  shows "(a \<notin> {''/'', ''.'', ''..''} \<and> a \<notin> set (dir_names (heap s) (cwd s)) \<longrightarrow>
            cd_cmd (heap s) (cwd s) (Some a) (root s) =
              Inr (Err NotFound ''no such directory'', cwd s) \<and>
            cd_cmd_L2 (heap s) (cwd s) (Some a) (root s) =
              Inr (Err NotFound (''cd: no such directory: '' @ a), cwd s)) \<and>
         (cwd s = root s \<longrightarrow>
            cd_cmd (heap s) (cwd s) (Some ''..'') (root s) = Inr (Ok [], root s) \<and>
            cd_cmd_L2 (heap s) (cwd s) (Some ''..'') (root s) = Inr (Ok [], root s)) \<and>
         cd_cmd (heap s) (cwd s) (Some ''.'') (root s) = Inr (Ok [], cwd s) \<and>
         cd_cmd_L2 (heap s) (cwd s) (Some ''.'') (root s) = Inr (Ok [], cwd s) \<and>
         cd_cmd (heap s) (cwd s) (Some ''/'') (root s) = Inr (Ok [], root s) \<and>
         cd_cmd_L2 (heap s) (cwd s) (Some ''/'') (root s) = Inr (Ok [], root s)"
proof -
  have wf: "wf_heap (heap s)" and c: "cwd s < length (heap s)" and r: "root s = 0"
    using assms by (simp_all add: wf_state_def)
  have "d_parent (heap s ! 0) = None"
    using wf_nodeD[OF wf, of 0] wf by (auto simp: wf_node_def wf_heap_iff split: option.splits)
  then have up: "cwd s = root s \<Longrightarrow>
      (case d_parent (heap s ! cwd s) of Some p \<Rightarrow> p | None \<Rightarrow> cwd s) = root s"
    using r by simp
  show ?thesis
    unfolding cd_cmd_eq[OF wf c] cd_cmd_L2_eq[OF wf c] using up by auto
qed

theorem cd_cases_witness:
  "wf_state init \<and> ''x'' \<notin> {''/'', ''.'', ''..''} \<and> cwd init = root init \<and>
   cd_cmd (heap init) (cwd init) (Some ''x'') (root init) =
     Inr (Err NotFound ''no such directory'', cwd init) \<and>
   cd_cmd_L2 (heap init) (cwd init) (Some ''x'') (root init) =
     Inr (Err NotFound ''cd: no such directory: x'', cwd init) \<and>
   cd_cmd (heap init) (cwd init) (Some ''..'') (root init) = Inr (Ok [], root init) \<and>
   cd_cmd_L2 (heap init) (cwd init) (Some ''..'') (root init) = Inr (Ok [], root init)"
proof -
  have d: "''x'' \<notin> set (dir_names (heap init) (cwd init))"
    by (simp add: dir_names_def init_def)
  have i: "cwd init = root init" by (simp add: init_def)
  show ?thesis
    using cd_cases[OF wf_init, of "''x''"] d i wf_init by simp
qed

text \<open>C5, as amended. For every well-formed state with current directory \<open>D\<close> and every
  name \<open>n\<close> of at most \<open>NAME_LEN - 1\<close> bytes that is none of the tokens \<^verbatim>\<open>/\<close>, \<^verbatim>\<open>.\<close>,
  \<^verbatim>\<open>..\<close>: when \<^verbatim>\<open>mkdir n\<close> succeeds in \<open>D\<close>, \<^verbatim>\<open>cd n\<close> returns the node just allocated and
  \<^verbatim>\<open>cd ..\<close> from there returns the pointer \<open>D\<close> itself. Both files.\<close>

theorem mkdir_cd_round_trip:
  assumes "wf_state s" "length n < NAME_LEN" "n \<notin> {''/'', ''.'', ''..''}"
  shows "(mkdir_cmd lim (heap s) (cwd s) (Some n) = Inr (Ok msg, h') \<longrightarrow>
            cd_cmd h' (cwd s) (Some n) (root s) = Inr (Ok [], length (heap s)) \<and>
            cd_cmd h' (length (heap s)) (Some ''..'') (root s) = Inr (Ok [], cwd s)) \<and>
         (mkdir_cmd_L2 lim (heap s) (cwd s) (Some n) = Inr (Ok msg, h') \<longrightarrow>
            cd_cmd_L2 h' (cwd s) (Some n) (root s) = Inr (Ok [], length (heap s)) \<and>
            cd_cmd_L2 h' (length (heap s)) (Some ''..'') (root s) = Inr (Ok [], cwd s))"
proof -
  have wf: "wf_heap (heap s)" and c: "cwd s < length (heap s)"
    using assms(1) by (simp_all add: wf_state_def)
  note rt = mkdir_then_cd[OF wf c assms(2,3)]
  show ?thesis
    using rt by (auto simp: mkdir_cmd_eq[OF wf c] mkdir_cmd_L2_eq[OF wf c] child_names_def
        split: if_splits)
qed

theorem mkdir_cd_round_trip_witness:
  "wf_state init \<and> length ''a'' < NAME_LEN \<and> ''a'' \<notin> {''/'', ''.'', ''..''} \<and>
   mkdir_cmd 2 (heap init) (cwd init) (Some ''a'') =
     Inr (Ok [''directory '' @ quoted ''a'' @ '' created''], mk_heap (heap init) 0 ''a'') \<and>
   cd_cmd (mk_heap (heap init) 0 ''a'') (cwd init) (Some ''a'') (root init) = Inr (Ok [], 1) \<and>
   cd_cmd (mk_heap (heap init) 0 ''a'') 1 (Some ''..'') (root init) = Inr (Ok [], cwd init)"
proof -
  have m: "mkdir_cmd 2 (heap init) (cwd init) (Some ''a'') =
     Inr (Ok [''directory '' @ quoted ''a'' @ '' created''], mk_heap (heap init) 0 ''a'')"
    by code_simp
  have l: "length (heap init) = 1" "length ''a'' < NAME_LEN" "''a'' \<notin> {''/'', ''.'', ''..''}"
    by (simp_all add: init_def NAME_LEN_def)
  show ?thesis
    using mkdir_cd_round_trip[OF wf_init l(2,3), of 2 "[''directory '' @ quoted ''a'' @ '' created'']"
        "mk_heap (heap init) 0 ''a''"] m l wf_init
    by simp
qed

text \<open>C5 as stated fails for the name \<^verbatim>\<open>.\<close>: in the directory \<^verbatim>\<open>a\<close> (node 1),
  \<^verbatim>\<open>mkdir .\<close> succeeds, \<^verbatim>\<open>cd .\<close> stays in node 1 and \<^verbatim>\<open>cd ..\<close> then returns the root
  (node 0), not node 1. It also fails for a name of 32 bytes: \<^verbatim>\<open>mkdir\<close> stores its first
  31 bytes, \<^verbatim>\<open>cd\<close> with the whole name finds no such directory and stays, and \<^verbatim>\<open>cd ..\<close>
  leaves for the root.\<close>

theorem mkdir_dot_no_round_trip:
  "map_sum id (\<lambda>(outs, s). (outs, cwd s)) (run 3 [Mkdir (Some ''a''), Cd (Some ''a'')] init) =
     Inr ([Ok [''directory '' @ quoted ''a'' @ '' created''], Ok []], 1) \<and>
   map_sum id (\<lambda>(outs, s). (drop 2 outs, cwd s))
     (run 3 [Mkdir (Some ''a''), Cd (Some ''a''), Mkdir (Some ''.''), Cd (Some ''.''), Cd (Some ''..'')] init) =
     Inr ([Ok [''directory '' @ quoted ''.'' @ '' created''], Ok [], Ok []], 0) \<and>
   map_sum id (\<lambda>(outs, s). (drop 2 outs, cwd s))
     (run 3 [Mkdir (Some ''a''), Cd (Some ''a''), Mkdir (Some long_x), Cd (Some long_x),
             Cd (Some ''..'')] init) =
     Inr ([Ok [''directory '' @ quoted long_x @ '' created''],
           Err NotFound ''no such directory'', Ok []], 0)"
  by code_simp

text \<open>C6. In every well-formed state whose current directory holds a file named \<open>old\<close>:
  when \<open>new\<close> is the name of a file or sub-directory of the current directory,
  \<^verbatim>\<open>mv old new\<close> reports \<open>NameCollision\<close> and leaves the heap as it was; otherwise it
  succeeds, and the heap it leaves differs from the old one in the name of that one file
  entry only (the first one named \<open>old\<close>), which becomes \<open>new\<close> cut to 31 bytes, while the
  entry's size, permission tag and content, the other entries and all other nodes stay
  as they were. Both files.\<close>

theorem mv_frame:
  assumes "wf_state s" "old \<in> set (file_names (heap s) (cwd s))"
  shows "(new \<in> set (child_names (heap s) (cwd s)) \<longrightarrow>
            mv_cmd (heap s) (cwd s) (Some old) (Some new) =
              Inr (Err NameCollision ''destination already exists'', heap s) \<and>
            (\<exists>m. mv_cmd_L2 (heap s) (cwd s) (Some old) (Some new) =
              Inr (Err NameCollision m, heap s))) \<and>
         (new \<notin> set (child_names (heap s) (cwd s)) \<longrightarrow>
            (\<exists>i h'. i < length (d_files (heap s ! cwd s)) \<and>
               f_name (d_files (heap s ! cwd s) ! i) = old \<and>
               mv_cmd (heap s) (cwd s) (Some old) (Some new) =
                 Inr (Ok [''renamed '' @ quoted old @ '' -> '' @ quoted new], h') \<and>
               mv_cmd_L2 (heap s) (cwd s) (Some old) (Some new) =
                 Inr (Ok [''file '' @ quoted old @ '' renamed to '' @ quoted new], h') \<and>
               length h' = length (heap s) \<and>
               (\<forall>p. p \<noteq> cwd s \<longrightarrow> h' ! p = heap s ! p) \<and>
               d_name (h' ! cwd s) = d_name (heap s ! cwd s) \<and>
               d_parent (h' ! cwd s) = d_parent (heap s ! cwd s) \<and>
               d_subdirs (h' ! cwd s) = d_subdirs (heap s ! cwd s) \<and>
               d_files (h' ! cwd s) =
                 (d_files (heap s ! cwd s))[i := (d_files (heap s ! cwd s) ! i)\<lparr>f_name := take 31 new\<rparr>] \<and>
               f_size (d_files (h' ! cwd s) ! i) = f_size (d_files (heap s ! cwd s) ! i) \<and>
               f_perm (d_files (h' ! cwd s) ! i) = f_perm (d_files (heap s ! cwd s) ! i) \<and>
               f_content (d_files (h' ! cwd s) ! i) = f_content (d_files (heap s ! cwd s) ! i)))"
proof -
  have wf: "wf_heap (heap s)" and c: "cwd s < length (heap s)"
    using assms(1) by (simp_all add: wf_state_def)
  let ?h = "heap s" and ?c = "cwd s"
  let ?i = "file_idx ?h ?c old"
  let ?fs = "d_files (?h ! ?c)"
  let ?h' = "set_files ?h ?c (?fs[?i := (?fs ! ?i)\<lparr>f_name := copy_name new\<rparr>])"
  have i: "?i < length ?fs" "f_name (?fs ! ?i) = old"
    using assms(2) by (simp_all add: file_idx_less file_idx_name)
  have coll: "new \<in> set (child_names ?h ?c) \<Longrightarrow>
      mv_cmd ?h ?c (Some old) (Some new) =
        Inr (Err NameCollision ''destination already exists'', ?h) \<and>
      (\<exists>m. mv_cmd_L2 ?h ?c (Some old) (Some new) = Inr (Err NameCollision m, ?h))"
    using assms(2) by (auto simp: mv_cmd_eq[OF wf c] mv_cmd_L2_eq[OF wf c] child_names_def)
  have ok: "mv_cmd ?h ?c (Some old) (Some new) =
        Inr (Ok [''renamed '' @ quoted old @ '' -> '' @ quoted new], ?h')"
      "mv_cmd_L2 ?h ?c (Some old) (Some new) =
        Inr (Ok [''file '' @ quoted old @ '' renamed to '' @ quoted new], ?h')"
    if "new \<notin> set (child_names ?h ?c)"
    using that assms(2)
    by (auto simp: mv_cmd_eq[OF wf c] mv_cmd_L2_eq[OF wf c] child_names_def rename_file_eq)
  have frame: "length ?h' = length ?h" "\<forall>p. p \<noteq> ?c \<longrightarrow> ?h' ! p = ?h ! p"
      "d_name (?h' ! ?c) = d_name (?h ! ?c)" "d_parent (?h' ! ?c) = d_parent (?h ! ?c)"
      "d_subdirs (?h' ! ?c) = d_subdirs (?h ! ?c)"
      "d_files (?h' ! ?c) = ?fs[?i := (?fs ! ?i)\<lparr>f_name := take 31 new\<rparr>]"
    using c by (simp_all add: set_files_other copy_name_def NAME_LEN_def)
  have entry: "f_size (d_files (?h' ! ?c) ! ?i) = f_size (?fs ! ?i)"
      "f_perm (d_files (?h' ! ?c) ! ?i) = f_perm (?fs ! ?i)"
      "f_content (d_files (?h' ! ?c) ! ?i) = f_content (?fs ! ?i)"
    using c i(1) by simp_all
  show ?thesis
  proof (intro conjI impI)
    assume "new \<notin> set (child_names ?h ?c)"
    from ok[OF this] i frame entry
    show "\<exists>i h'. i < length ?fs \<and> f_name (?fs ! i) = old \<and>
        mv_cmd ?h ?c (Some old) (Some new) =
          Inr (Ok [''renamed '' @ quoted old @ '' -> '' @ quoted new], h') \<and>
        mv_cmd_L2 ?h ?c (Some old) (Some new) =
          Inr (Ok [''file '' @ quoted old @ '' renamed to '' @ quoted new], h') \<and>
        length h' = length ?h \<and> (\<forall>p. p \<noteq> ?c \<longrightarrow> h' ! p = ?h ! p) \<and>
        d_name (h' ! ?c) = d_name (?h ! ?c) \<and> d_parent (h' ! ?c) = d_parent (?h ! ?c) \<and>
        d_subdirs (h' ! ?c) = d_subdirs (?h ! ?c) \<and>
        d_files (h' ! ?c) = ?fs[i := (?fs ! i)\<lparr>f_name := take 31 new\<rparr>] \<and>
        f_size (d_files (h' ! ?c) ! i) = f_size (?fs ! i) \<and>
        f_perm (d_files (h' ! ?c) ! i) = f_perm (?fs ! i) \<and>
        f_content (d_files (h' ! ?c) ! i) = f_content (?fs ! i)"
      by (intro exI[of _ ?i] exI[of _ ?h']) (simp only: simp_thms)
  qed (use coll in blast)+
qed

theorem mv_frame_witness:
  "wf_state sample_state \<and>
   ''old'' \<in> set (file_names (heap sample_state) (cwd sample_state)) \<and>
   ''d'' \<in> set (child_names (heap sample_state) (cwd sample_state)) \<and>
   mv_cmd (heap sample_state) (cwd sample_state) (Some ''old'') (Some ''d'') =
     Inr (Err NameCollision ''destination already exists'', heap sample_state) \<and>
   (\<exists>m. mv_cmd_L2 (heap sample_state) (cwd sample_state) (Some ''old'') (Some ''d'') =
     Inr (Err NameCollision m, heap sample_state)) \<and>
   map_sum id (\<lambda>(out, h). (out, d_files (h ! 0)))
     (mv_cmd (heap sample_state) (cwd sample_state) (Some ''old'') (Some ''n'')) =
     Inr (Ok [''renamed '' @ quoted ''old'' @ '' -> '' @ quoted ''n''],
          [\<lparr>f_name = ''n'', f_size = 0, f_perm = ''rw-'', f_content = []\<rparr>])"
proof -
  have n: "map_sum id (\<lambda>(out, h). (out, d_files (h ! 0)))
     (mv_cmd (heap sample_state) (cwd sample_state) (Some ''old'') (Some ''n'')) =
     Inr (Ok [''renamed '' @ quoted ''old'' @ '' -> '' @ quoted ''n''],
          [\<lparr>f_name = ''n'', f_size = 0, f_perm = ''rw-'', f_content = []\<rparr>])"
    by code_simp
  have o: "''old'' \<in> set (file_names (heap sample_state) (cwd sample_state))"
    by code_simp
  have d: "''d'' \<in> set (child_names (heap sample_state) (cwd sample_state))"
    by code_simp
  show ?thesis
    using mv_frame[OF wf_sample o, of "''d''"] o d n wf_sample by blast
qed

text \<open>C7, as amended. In every well-formed state: \<^verbatim>\<open>rm g\<close> of a file \<open>g\<close> of the current
  directory removes the first entry named \<open>g\<close> and keeps the entries before and after it
  in their order, closing the gap; and in a current directory with no entries, for a
  name \<open>f\<close> of at most \<open>NAME_LEN - 1\<close> bytes, \<^verbatim>\<open>touch f\<close> followed by \<^verbatim>\<open>rm f\<close> gives back the
  heap as it was, in which \<^verbatim>\<open>ls\<close> lists no entry (\<^verbatim>\<open>linux-commands.c\<close> prints nothing,
  \<^verbatim>\<open>L2.c\<close> prints the one line \<^verbatim>\<open>ls: no entries\<close>) and \<^verbatim>\<open>rm f\<close> reports \<open>NotFound\<close>.\<close>

theorem touch_rm_ls:
  assumes "wf_state s"
  shows "(g \<in> set (file_names (heap s) (cwd s)) \<longrightarrow>
            (\<exists>i h'. i < length (d_files (heap s ! cwd s)) \<and>
               f_name (d_files (heap s ! cwd s) ! i) = g \<and>
               rm_cmd (heap s) (cwd s) (Some g) =
                 Inr (Ok [''file '' @ quoted g @ '' removed''], h') \<and>
               rm_cmd_L2 (heap s) (cwd s) (Some g) =
                 Inr (Ok [''file '' @ quoted g @ '' removed''], h') \<and>
               length h' = length (heap s) \<and>
               (\<forall>p. p \<noteq> cwd s \<longrightarrow> h' ! p = heap s ! p) \<and>
               d_subdirs (h' ! cwd s) = d_subdirs (heap s ! cwd s) \<and>
               d_files (h' ! cwd s) =
                 take i (d_files (heap s ! cwd s)) @ drop (Suc i) (d_files (heap s ! cwd s)))) \<and>
         (d_files (heap s ! cwd s) = [] \<and> d_subdirs (heap s ! cwd s) = [] \<and>
          length f < NAME_LEN \<longrightarrow>
            (\<exists>h1. touch_cmd (heap s) (cwd s) (Some f) =
                    Inr (Ok [''file '' @ quoted f @ '' created''], h1) \<and>
                  touch_cmd_L2 (heap s) (cwd s) (Some f) =
                    Inr (Ok [''file '' @ quoted f @ '' created''], h1) \<and>
                  rm_cmd h1 (cwd s) (Some f) =
                    Inr (Ok [''file '' @ quoted f @ '' removed''], heap s) \<and>
                  rm_cmd_L2 h1 (cwd s) (Some f) =
                    Inr (Ok [''file '' @ quoted f @ '' removed''], heap s)) \<and>
            ls_cmd (heap s) (cwd s) opt = Inr (Ok []) \<and>
            ls_cmd_L2 (heap s) (cwd s) opt = Inr (Ok [''ls: no entries'']) \<and>
            rm_cmd (heap s) (cwd s) (Some f) = Inr (Err NotFound ''no such file'', heap s) \<and>
            rm_cmd_L2 (heap s) (cwd s) (Some f) = Inr (Err NotFound ''no such file'', heap s))"
proof -
  have wf: "wf_heap (heap s)" and c: "cwd s < length (heap s)"
    using assms(1) by (simp_all add: wf_state_def)
  let ?h = "heap s" and ?c = "cwd s"
  let ?fs = "d_files (?h ! ?c)"
  have general: "\<exists>i h'. i < length ?fs \<and> f_name (?fs ! i) = g \<and>
       rm_cmd ?h ?c (Some g) = Inr (Ok [''file '' @ quoted g @ '' removed''], h') \<and>
       rm_cmd_L2 ?h ?c (Some g) = Inr (Ok [''file '' @ quoted g @ '' removed''], h') \<and>
       length h' = length ?h \<and> (\<forall>p. p \<noteq> ?c \<longrightarrow> h' ! p = ?h ! p) \<and>
       d_subdirs (h' ! ?c) = d_subdirs (?h ! ?c) \<and>
       d_files (h' ! ?c) = take i ?fs @ drop (Suc i) ?fs"
    if g: "g \<in> set (file_names ?h ?c)"
  proof -
    let ?i = "file_idx ?h ?c g"
    have "?i < length ?fs" "f_name (?fs ! ?i) = g"
      using g by (simp_all add: file_idx_less file_idx_name)
    moreover have "rm_cmd ?h ?c (Some g) = Inr (Ok [''file '' @ quoted g @ '' removed''], rm_heap ?h ?c g)"
      "rm_cmd_L2 ?h ?c (Some g) = Inr (Ok [''file '' @ quoted g @ '' removed''], rm_heap ?h ?c g)"
      using g by (simp_all add: rm_cmd_eq[OF c] rm_cmd_L2_eq[OF c])
    moreover have "length (rm_heap ?h ?c g) = length ?h"
      "\<forall>p. p \<noteq> ?c \<longrightarrow> rm_heap ?h ?c g ! p = ?h ! p"
      "d_subdirs (rm_heap ?h ?c g ! ?c) = d_subdirs (?h ! ?c)"
      "d_files (rm_heap ?h ?c g ! ?c) = take ?i ?fs @ drop (Suc ?i) ?fs"
      using c by (simp_all add: rm_heap_eq set_files_other)
    ultimately show ?thesis by blast
  qed
  have empty: "(\<exists>h1. touch_cmd ?h ?c (Some f) = Inr (Ok [''file '' @ quoted f @ '' created''], h1) \<and>
        touch_cmd_L2 ?h ?c (Some f) = Inr (Ok [''file '' @ quoted f @ '' created''], h1) \<and>
        rm_cmd h1 ?c (Some f) = Inr (Ok [''file '' @ quoted f @ '' removed''], ?h) \<and>
        rm_cmd_L2 h1 ?c (Some f) = Inr (Ok [''file '' @ quoted f @ '' removed''], ?h)) \<and>
      ls_cmd ?h ?c opt = Inr (Ok []) \<and> ls_cmd_L2 ?h ?c opt = Inr (Ok [''ls: no entries'']) \<and>
      rm_cmd ?h ?c (Some f) = Inr (Err NotFound ''no such file'', ?h) \<and>
      rm_cmd_L2 ?h ?c (Some f) = Inr (Err NotFound ''no such file'', ?h)"
    if e: "?fs = []" "d_subdirs (?h ! ?c) = []" and short: "length f < NAME_LEN"
  proof -
    let ?h1 = "set_files ?h ?c [new_file f]"
    have names: "child_names ?h ?c = []" "file_names ?h ?c = []" "dir_names ?h ?c = []"
      using e by (simp_all add: child_names_def file_names_def dir_names_def)
    have t: "touch_cmd ?h ?c (Some f) = Inr (Ok [''file '' @ quoted f @ '' created''], ?h1)"
      "touch_cmd_L2 ?h ?c (Some f) = Inr (Ok [''file '' @ quoted f @ '' created''], ?h1)"
      using e names
      by (simp_all add: touch_cmd_eq[OF wf c] touch_cmd_L2_eq[OF wf c] add_file_eq MAX_FILES_def)
    have c1: "?c < length ?h1" using c by simp
    have fn: "file_names ?h1 ?c = [f]"
      using c short by (simp add: file_names_set_files new_file_def copy_name_id)
    have "file_idx ?h1 ?c f = 0"
      using c short by (simp add: file_idx_def new_file_def copy_name_id)
    then have "rm_heap ?h1 ?c f = ?h"
      using c e by (simp add: rm_heap_eq set_files_twice) (metis set_files_same)
    then have r: "rm_cmd ?h1 ?c (Some f) = Inr (Ok [''file '' @ quoted f @ '' removed''], ?h)"
      "rm_cmd_L2 ?h1 ?c (Some f) = Inr (Ok [''file '' @ quoted f @ '' removed''], ?h)"
      using fn by (simp_all add: rm_cmd_eq[OF c1] rm_cmd_L2_eq[OF c1])
    have l: "ls_cmd ?h ?c opt = Inr (Ok [])" "ls_cmd_L2 ?h ?c opt = Inr (Ok [''ls: no entries''])"
      using c e by (simp_all add: ls_cmd_def ls_cmd_L2_def Let_def)
    have r2: "rm_cmd ?h ?c (Some f) = Inr (Err NotFound ''no such file'', ?h)"
      "rm_cmd_L2 ?h ?c (Some f) = Inr (Err NotFound ''no such file'', ?h)"
      using names by (simp_all add: rm_cmd_eq[OF c] rm_cmd_L2_eq[OF c])
    show ?thesis using t r l r2 by blast
  qed
  show ?thesis using general empty by blast
qed

theorem touch_rm_ls_witness:
  "wf_state init \<and> d_files (heap init ! cwd init) = [] \<and> d_subdirs (heap init ! cwd init) = [] \<and>
   length ''f'' < NAME_LEN \<and>
   ls_cmd (heap init) (cwd init) None = Inr (Ok []) \<and>
   ls_cmd_L2 (heap init) (cwd init) None = Inr (Ok [''ls: no entries'']) \<and>
   rm_cmd (heap init) (cwd init) (Some ''f'') = Inr (Err NotFound ''no such file'', heap init) \<and>
   (\<exists>h1. touch_cmd (heap init) (cwd init) (Some ''f'') =
            Inr (Ok [''file '' @ quoted ''f'' @ '' created''], h1) \<and>
          rm_cmd h1 (cwd init) (Some ''f'') =
            Inr (Ok [''file '' @ quoted ''f'' @ '' removed''], heap init))"
proof -
  have e: "d_files (heap init ! cwd init) = []" "d_subdirs (heap init ! cwd init) = []"
      "length ''f'' < NAME_LEN"
    by (simp_all add: init_def NAME_LEN_def)
  show ?thesis
    using touch_rm_ls[OF wf_init, of "''f''" "''f''" None] e wf_init by blast
qed

text \<open>C7 as stated fails twice: after \<^verbatim>\<open>touch f; rm f\<close> the \<^verbatim>\<open>ls\<close> of \<^verbatim>\<open>L2.c\<close> prints the
  line \<^verbatim>\<open>ls: no entries\<close>, and for a name of 32 bytes the first \<^verbatim>\<open>rm\<close> already reports
  \<open>NotFound\<close>, since the file was stored under the first 31 bytes of its name, and \<^verbatim>\<open>ls\<close>
  still lists it.\<close>

theorem touch_rm_ls_counterexample:
  "map_sum id fst (run_L2 1 [Touch (Some ''f''), Rm (Some ''f''), Ls None, Rm (Some ''f'')] init) =
     Inr [Ok [''file '' @ quoted ''f'' @ '' created''], Ok [''file '' @ quoted ''f'' @ '' removed''],
          Ok [''ls: no entries''], Err NotFound ''no such file''] \<and>
   map_sum id fst (run 1 [Touch (Some long_x), Rm (Some long_x), Ls None] init) =
     Inr [Ok [''file '' @ quoted long_x @ '' created''], Err NotFound ''no such file'',
          Ok [replicate 31 CHR ''a'']]"
  by code_simp

text \<open>C8. The walk of \<^verbatim>\<open>pwd\<close> is claimed to stay inside the 64-entry array \<^verbatim>\<open>parts\<close> and to
  give a truncated path for longer chains. \<^verbatim>\<open>L2.c\<close> does so; \<^verbatim>\<open>linux-commands.c\<close> has no
  bound in its loop: after \<^verbatim>\<open>mkdir a; cd a\<close> sixty-four times the chain to the root has 65
  nodes and the walk writes \<^verbatim>\<open>parts[64]\<close>.\<close>

theorem pwd_overflows_below_depth_64:
  "run 65 (descend 64 @ [Pwd]) init = Inl ArrayOverflow \<and>
   map_sum id (last \<circ> fst) (run_L2 65 (descend 64 @ [Pwd]) init) =
     Inr (Ok [''a'' @ concat (replicate 63 ''/a'')])"
  by code_simp

text \<open>C9. On every well-formed heap, \<^verbatim>\<open>free_dir\<close> (and \<^verbatim>\<open>free_dir_recursive\<close>) called on a
  directory \<open>d\<close> returns, given enough fuel, without a fault, and the calls of \<^verbatim>\<open>free\<close> it
  has made are the post-order of the subtree of \<open>d\<close>: every node comes after all its
  sub-directories, no node is released twice, \<open>d\<close> comes last, and every other
  released node has its parent among the released nodes; on a leaf the only call is
  \<^verbatim>\<open>free(d)\<close>.\<close>

theorem free_dir_post_order:
  assumes "wf_heap h" "d < length h"
  shows "(\<exists>k. \<forall>j\<ge>k. free_dir j h (Some d) [] = Some (Inr (postorder h d)) \<and>
                 free_dir_recursive j h (Some d) [] = Some (Inr (postorder h d))) \<and>
         children_first h (postorder h d) \<and>
         distinct (postorder h d) \<and>
         last (postorder h d) = d \<and>
         (\<forall>x\<in>set (postorder h d). x = d \<or> (\<exists>q\<in>set (postorder h d). d_parent (h ! x) = Some q)) \<and>
         (d_subdirs (h ! d) = [] \<longrightarrow>
            postorder h d = [d] \<and> free_dir 2 h (Some d) [] = Some (Inr [d]) \<and>
            free_dir_recursive 2 h (Some d) [] = Some (Inr [d]))"
proof -
  obtain k where k: "free_dir k h (Some d) [] = Some (Inr (postorder h d))"
    using free_dir_runs[OF assms, of "[]"] by auto
  have run: "\<exists>k. \<forall>j\<ge>k. free_dir j h (Some d) [] = Some (Inr (postorder h d)) \<and>
                 free_dir_recursive j h (Some d) [] = Some (Inr (postorder h d))"
    using free_dir_mono[OF k] by (auto simp: free_dir_recursive_def)
  have cf: "children_first h (postorder h d)"
    using released_after_postorder[OF assms] by (simp add: children_first_iff)
  have par: "\<forall>x\<in>set (postorder h d). x = d \<or> (\<exists>q\<in>set (postorder h d). d_parent (h ! x) = Some q)"
    using postorder_parent[OF assms] by blast
  have leaf: "postorder h d = [d] \<and> free_dir 2 h (Some d) [] = Some (Inr [d]) \<and>
      free_dir_recursive 2 h (Some d) [] = Some (Inr [d])"
    if "d_subdirs (h ! d) = []"
    using that assms(2)
    by (simp add: postorder_wf[OF assms] free_dir_recursive_def numeral_2_eq_2)
  show ?thesis
    using run cf par leaf postorder_distinct[OF assms] postorder_last[of h d] by blast
qed

theorem free_dir_post_order_witness:
  "wf_heap heap7 \<and> 0 < length heap7 \<and>
   postorder heap7 0 = [3, 4, 1, 5, 6, 2, 0] \<and>
   free_dir 10 heap7 (Some 0) [] = Some (Inr [3, 4, 1, 5, 6, 2, 0]) \<and>
   children_first heap7 [3, 4, 1, 5, 6, 2, 0] \<and>
   distinct [3, 4, 1, 5, 6, 2, 0 :: nat] \<and>
   d_subdirs (heap7 ! 3) = [] \<and> 3 < length heap7 \<and>
   free_dir 2 heap7 (Some 3) [] = Some (Inr [3])"
proof -
  have l: "0 < length heap7" "3 < length heap7" "d_subdirs (heap7 ! 3) = []"
    by (simp_all add: heap7_def)
  have p: "postorder heap7 0 = [3, 4, 1, 5, 6, 2, 0]"
    by code_simp
  have f: "free_dir 10 heap7 (Some 0) [] = Some (Inr [3, 4, 1, 5, 6, 2, 0])"
    by code_simp
  show ?thesis
    using free_dir_post_order[OF wf_heap7 l(1)] free_dir_post_order[OF wf_heap7 l(2)] l p f wf_heap7
    by simp
qed

text \<open>C10. In every well-formed state, for \<^verbatim>\<open>touch\<close>, \<^verbatim>\<open>mkdir\<close> and \<^verbatim>\<open>mv\<close> of
  \<^verbatim>\<open>linux-commands.c\<close>: a command that succeeds was given a name that equals, untruncated,
  none of the stored names of the current directory, and stores the first 31 bytes of
  it; a name that equals a stored name is refused with \<open>NameCollision\<close> (by \<^verbatim>\<open>mkdir\<close>
  when the sub-directory array is not full, by \<^verbatim>\<open>mv\<close> when the source exists).
  So two different names longer than 31 bytes with the same first 31 bytes are both
  accepted, where capacity and memory allow, and end up stored under one and the same
  name.\<close>

theorem truncated_names:
  assumes "wf_state s"
  shows "(touch_cmd (heap s) (cwd s) (Some n) = Inr (Ok msg, h') \<longrightarrow>
            n \<notin> set (child_names (heap s) (cwd s)) \<and>
            file_names h' (cwd s) = file_names (heap s) (cwd s) @ [take 31 n]) \<and>
         (mkdir_cmd lim (heap s) (cwd s) (Some n) = Inr (Ok msg, h') \<longrightarrow>
            n \<notin> set (child_names (heap s) (cwd s)) \<and>
            dir_names h' (cwd s) = dir_names (heap s) (cwd s) @ [take 31 n]) \<and>
         (mv_cmd (heap s) (cwd s) (Some old) (Some n) = Inr (Ok msg, h') \<longrightarrow>
            n \<notin> set (child_names (heap s) (cwd s)) \<and>
            (\<exists>i<length (file_names (heap s) (cwd s)). file_names (heap s) (cwd s) ! i = old \<and>
               file_names h' (cwd s) = (file_names (heap s) (cwd s))[i := take 31 n])) \<and>
         (n \<in> set (child_names (heap s) (cwd s)) \<longrightarrow>
            touch_cmd (heap s) (cwd s) (Some n) =
              Inr (Err NameCollision ''name already exists'', heap s) \<and>
            (length (d_subdirs (heap s ! cwd s)) < MAX_SUBDIRS \<longrightarrow>
               mkdir_cmd lim (heap s) (cwd s) (Some n) =
                 Inr (Err NameCollision ''name already exists'', heap s)) \<and>
            (old \<in> set (file_names (heap s) (cwd s)) \<longrightarrow>
               mv_cmd (heap s) (cwd s) (Some old) (Some n) =
                 Inr (Err NameCollision ''destination already exists'', heap s))) \<and>
         (31 < length n1 \<and> 31 < length n2 \<and> n1 \<noteq> n2 \<and> take 31 n1 = take 31 n2 \<longrightarrow>
            (length (d_files (heap s ! cwd s)) + 2 \<le> MAX_FILES \<longrightarrow>
               (\<exists>h1 h2. touch_cmd (heap s) (cwd s) (Some n1) =
                           Inr (Ok [''file '' @ quoted n1 @ '' created''], h1) \<and>
                         touch_cmd h1 (cwd s) (Some n2) =
                           Inr (Ok [''file '' @ quoted n2 @ '' created''], h2) \<and>
                         file_names h2 (cwd s) =
                           file_names (heap s) (cwd s) @ [take 31 n1, take 31 n1])) \<and>
            (length (d_subdirs (heap s ! cwd s)) + 2 \<le> MAX_SUBDIRS \<and> length (heap s) + 2 \<le> lim \<longrightarrow>
               (\<exists>h1 h2. mkdir_cmd lim (heap s) (cwd s) (Some n1) =
                           Inr (Ok [''directory '' @ quoted n1 @ '' created''], h1) \<and>
                         mkdir_cmd lim h1 (cwd s) (Some n2) =
                           Inr (Ok [''directory '' @ quoted n2 @ '' created''], h2) \<and>
                         dir_names h2 (cwd s) =
                           dir_names (heap s) (cwd s) @ [take 31 n1, take 31 n1])) \<and>
            (o1 \<in> set (file_names (heap s) (cwd s)) \<and> o2 \<in> set (file_names (heap s) (cwd s)) \<and>
             o1 \<noteq> o2 \<longrightarrow>
               (\<exists>h1 h2. mv_cmd (heap s) (cwd s) (Some o1) (Some n1) =
                           Inr (Ok [''renamed '' @ quoted o1 @ '' -> '' @ quoted n1], h1) \<and>
                         mv_cmd h1 (cwd s) (Some o2) (Some n2) =
                           Inr (Ok [''renamed '' @ quoted o2 @ '' -> '' @ quoted n2], h2) \<and>
                         \<not> distinct (file_names h2 (cwd s)))))"
proof -
  have wf: "wf_heap (heap s)" and c: "cwd s < length (heap s)"
    using assms(1) by (simp_all add: wf_state_def)
  let ?h = "heap s" and ?c = "cwd s"
  have cn: "copy_name x = take 31 x" for x by (simp add: copy_name_def NAME_LEN_def)
  have A: "touch_cmd ?h ?c (Some n) = Inr (Ok msg, h') \<longrightarrow>
      n \<notin> set (child_names ?h ?c) \<and> file_names h' ?c = file_names ?h ?c @ [take 31 n]"
    using c by (auto simp: touch_cmd_eq[OF wf c] add_file_eq file_names_set_files new_file_def cn
        file_names_def split: if_splits)
  have B: "mkdir_cmd lim ?h ?c (Some n) = Inr (Ok msg, h') \<longrightarrow>
      n \<notin> set (child_names ?h ?c) \<and> dir_names h' ?c = dir_names ?h ?c @ [take 31 n]"
    using c by (auto simp: mkdir_cmd_eq[OF wf c] dir_names_mk_heap[OF wf c c] cn split: if_splits)
  have C: "mv_cmd ?h ?c (Some old) (Some n) = Inr (Ok msg, h') \<longrightarrow>
      n \<notin> set (child_names ?h ?c) \<and>
      (\<exists>i<length (file_names ?h ?c). file_names ?h ?c ! i = old \<and>
         file_names h' ?c = (file_names ?h ?c)[i := take 31 n])"
  proof
    assume a: "mv_cmd ?h ?c (Some old) (Some n) = Inr (Ok msg, h')"
    then have o: "old \<in> set (file_names ?h ?c)" and n: "n \<notin> set (child_names ?h ?c)"
      and h': "h' = rename_file ?h ?c (?h ! ?c) (file_idx ?h ?c old) n"
      by (auto simp: mv_cmd_eq[OF wf c] split: if_splits)
    let ?i = "file_idx ?h ?c old"
    have "?i < length (file_names ?h ?c)" "file_names ?h ?c ! ?i = old"
      using file_idx_less[OF o] file_idx_name[OF o] by (simp_all add: file_names_def)
    moreover have "file_names h' ?c = (file_names ?h ?c)[?i := take 31 n]"
      using c h' by (simp add: rename_file_eq file_names_set_files cn map_update)
        (simp add: file_names_def)
    ultimately show "n \<notin> set (child_names ?h ?c) \<and>
      (\<exists>i<length (file_names ?h ?c). file_names ?h ?c ! i = old \<and>
         file_names h' ?c = (file_names ?h ?c)[i := take 31 n])"
      using n by blast
  qed
  have D: "n \<in> set (child_names ?h ?c) \<longrightarrow>
      touch_cmd ?h ?c (Some n) = Inr (Err NameCollision ''name already exists'', ?h) \<and>
      (length (d_subdirs (?h ! ?c)) < MAX_SUBDIRS \<longrightarrow>
         mkdir_cmd lim ?h ?c (Some n) = Inr (Err NameCollision ''name already exists'', ?h)) \<and>
      (old \<in> set (file_names ?h ?c) \<longrightarrow>
         mv_cmd ?h ?c (Some old) (Some n) =
           Inr (Err NameCollision ''destination already exists'', ?h))"
    by (simp add: touch_cmd_eq[OF wf c] mkdir_cmd_eq[OF wf c] mv_cmd_eq[OF wf c])
  have E: "(length (d_files (?h ! ?c)) + 2 \<le> MAX_FILES \<longrightarrow>
       (\<exists>h1 h2. touch_cmd ?h ?c (Some n1) = Inr (Ok [''file '' @ quoted n1 @ '' created''], h1) \<and>
                 touch_cmd h1 ?c (Some n2) = Inr (Ok [''file '' @ quoted n2 @ '' created''], h2) \<and>
                 file_names h2 ?c = file_names ?h ?c @ [take 31 n1, take 31 n1])) \<and>
     (length (d_subdirs (?h ! ?c)) + 2 \<le> MAX_SUBDIRS \<and> length ?h + 2 \<le> lim \<longrightarrow>
       (\<exists>h1 h2. mkdir_cmd lim ?h ?c (Some n1) =
                   Inr (Ok [''directory '' @ quoted n1 @ '' created''], h1) \<and>
                 mkdir_cmd lim h1 ?c (Some n2) =
                   Inr (Ok [''directory '' @ quoted n2 @ '' created''], h2) \<and>
                 dir_names h2 ?c = dir_names ?h ?c @ [take 31 n1, take 31 n1])) \<and>
     (o1 \<in> set (file_names ?h ?c) \<and> o2 \<in> set (file_names ?h ?c) \<and> o1 \<noteq> o2 \<longrightarrow>
       (\<exists>h1 h2. mv_cmd ?h ?c (Some o1) (Some n1) =
                   Inr (Ok [''renamed '' @ quoted o1 @ '' -> '' @ quoted n1], h1) \<and>
                 mv_cmd h1 ?c (Some o2) (Some n2) =
                   Inr (Ok [''renamed '' @ quoted o2 @ '' -> '' @ quoted n2], h2) \<and>
                 \<not> distinct (file_names h2 ?c)))"
    if long: "31 < length n1" "31 < length n2" and ne: "n1 \<noteq> n2" and eq: "take 31 n1 = take 31 n2"
  proof -
    have fresh: "x \<notin> set (child_names g ?c)" if "wf_heap g" "?c < length g" "31 < length x" for g x
      using stored_names_short[OF that(1,2), of x] that(3) by (auto simp: NAME_LEN_def)
    have f1: "n1 \<notin> set (child_names ?h ?c)" "n2 \<notin> set (child_names ?h ?c)"
      using fresh[OF wf c] long by simp_all
    have T: ?thesis if False
      using that by simp
    have touch: "\<exists>h1 h2. touch_cmd ?h ?c (Some n1) = Inr (Ok [''file '' @ quoted n1 @ '' created''], h1) \<and>
                 touch_cmd h1 ?c (Some n2) = Inr (Ok [''file '' @ quoted n2 @ '' created''], h2) \<and>
                 file_names h2 ?c = file_names ?h ?c @ [take 31 n1, take 31 n1]"
      if cap: "length (d_files (?h ! ?c)) + 2 \<le> MAX_FILES"
    proof -
      let ?h1 = "set_files ?h ?c (d_files (?h ! ?c) @ [new_file n1])"
      let ?h2 = "set_files ?h1 ?c (d_files (?h1 ! ?c) @ [new_file n2])"
      have t1: "touch_cmd ?h ?c (Some n1) = Inr (Ok [''file '' @ quoted n1 @ '' created''], ?h1)"
        using f1 cap by (simp add: touch_cmd_eq[OF wf c] add_file_eq)
      have wf1: "wf_heap ?h1" using wf_touch[OF wf c t1] .
      have c1: "?c < length ?h1" using c by simp
      have "n2 \<notin> set (child_names ?h1 ?c)" using fresh[OF wf1 c1] long by simp
      then have t2: "touch_cmd ?h1 ?c (Some n2) = Inr (Ok [''file '' @ quoted n2 @ '' created''], ?h2)"
        using cap c by (simp add: touch_cmd_eq[OF wf1 c1] add_file_eq)
      have "file_names ?h2 ?c = file_names ?h ?c @ [take 31 n1, take 31 n1]"
        using c eq by (simp add: file_names_def new_file_def cn)
      then show ?thesis using t1 t2 by blast
    qed
    have mkdir: "\<exists>h1 h2. mkdir_cmd lim ?h ?c (Some n1) =
                   Inr (Ok [''directory '' @ quoted n1 @ '' created''], h1) \<and>
                 mkdir_cmd lim h1 ?c (Some n2) =
                   Inr (Ok [''directory '' @ quoted n2 @ '' created''], h2) \<and>
                 dir_names h2 ?c = dir_names ?h ?c @ [take 31 n1, take 31 n1]"
      if cap: "length (d_subdirs (?h ! ?c)) + 2 \<le> MAX_SUBDIRS" "length ?h + 2 \<le> lim"
    proof -
      let ?h1 = "mk_heap ?h ?c n1"
      let ?h2 = "mk_heap ?h1 ?c n2"
      have m1: "mkdir_cmd lim ?h ?c (Some n1) =
          Inr (Ok [''directory '' @ quoted n1 @ '' created''], ?h1)"
        using f1 cap by (simp add: mkdir_cmd_eq[OF wf c])
      have wf1: "wf_heap ?h1" using wf_heap_mk_heap[OF wf c] .
      have c1: "?c < length ?h1" using c by simp
      have "n2 \<notin> set (child_names ?h1 ?c)" using fresh[OF wf1 c1] long by simp
      then have m2: "mkdir_cmd lim ?h1 ?c (Some n2) =
          Inr (Ok [''directory '' @ quoted n2 @ '' created''], ?h2)"
        using cap c by (simp add: mkdir_cmd_eq[OF wf1 c1])
      have "dir_names ?h2 ?c = dir_names ?h ?c @ [take 31 n1, take 31 n1]"
        using eq by (simp add: dir_names_mk_heap[OF wf1 c1 c1] dir_names_mk_heap[OF wf c c] cn)
      then show ?thesis using m1 m2 by blast
    qed
    have mv: "\<exists>h1 h2. mv_cmd ?h ?c (Some o1) (Some n1) =
                   Inr (Ok [''renamed '' @ quoted o1 @ '' -> '' @ quoted n1], h1) \<and>
                 mv_cmd h1 ?c (Some o2) (Some n2) =
                   Inr (Ok [''renamed '' @ quoted o2 @ '' -> '' @ quoted n2], h2) \<and>
                 \<not> distinct (file_names h2 ?c)"
      if o: "o1 \<in> set (file_names ?h ?c)" "o2 \<in> set (file_names ?h ?c)" "o1 \<noteq> o2"
    proof -
      let ?t = "take 31 n1"
      let ?ns = "file_names ?h ?c"
      let ?i1 = "file_idx ?h ?c o1"
      let ?h1 = "rename_file ?h ?c (?h ! ?c) ?i1 n1"
      have v1: "mv_cmd ?h ?c (Some o1) (Some n1) =
          Inr (Ok [''renamed '' @ quoted o1 @ '' -> '' @ quoted n1], ?h1)"
        using f1 o by (simp add: mv_cmd_eq[OF wf c])
      have wf1: "wf_heap ?h1" using wf_rename[OF wf c] .
      have c1: "?c < length ?h1" using c by (simp add: rename_file_eq)
      have i1: "?i1 < length ?ns" "?ns ! ?i1 = o1"
        using file_idx_less[OF o(1)] file_idx_name[OF o(1)] by (simp_all add: file_names_def)
      have ns1: "file_names ?h1 ?c = ?ns[?i1 := ?t]"
        using c by (simp add: rename_file_eq file_names_set_files cn map_update)
          (simp add: file_names_def)
      obtain i2 where i2: "i2 < length ?ns" "?ns ! i2 = o2"
        using o(2) by (auto simp: in_set_conv_nth)
      have ne12: "i2 \<noteq> ?i1" using i1 i2 o(3) by auto
      have o2in: "o2 \<in> set (file_names ?h1 ?c)"
        unfolding ns1 using i2 ne12 by (auto simp: in_set_conv_nth nth_list_update intro!: exI[of _ i2])
      let ?j = "file_idx ?h1 ?c o2"
      let ?h2 = "rename_file ?h1 ?c (?h1 ! ?c) ?j n2"
      have "n2 \<notin> set (child_names ?h1 ?c)" using fresh[OF wf1 c1] long by simp
      then have v2: "mv_cmd ?h1 ?c (Some o2) (Some n2) =
          Inr (Ok [''renamed '' @ quoted o2 @ '' -> '' @ quoted n2], ?h2)"
        using o2in by (simp add: mv_cmd_eq[OF wf1 c1])
      have len1: "length (d_files (?h1 ! ?c)) = length ?ns"
        using arg_cong[OF ns1, of length] by (simp add: file_names_def)
      have j1: "?j < length (d_files (?h1 ! ?c))"
        using file_idx_less[OF o2in] .
      have "file_names ?h1 ?c ! ?j = o2"
        using file_idx_name[OF o2in] j1 by (simp add: file_names_def)
      then have j: "?j < length ?ns" "(?ns[?i1 := ?t]) ! ?j = o2"
        using j1 len1 ns1 by simp_all
      have ns2: "file_names ?h2 ?c = ?ns[?i1 := ?t, ?j := ?t]"
        using c1 eq ns1 by (simp add: rename_file_eq[of ?h1] file_names_set_files cn map_update)
          (simp add: file_names_def)
      have "\<not> distinct (?ns[?i1 := ?t, ?j := ?t])"
      proof (cases "?j = ?i1")
        case True
        then have t: "?t = o2" using j i1 by simp
        show ?thesis
          by (rule not_distinct_update2[of ?i1 _ i2])
            (use i1 i2 ne12 True t in \<open>simp_all add: nth_list_update\<close>)
      next
        case False
        show ?thesis
          by (rule not_distinct_update2[of ?i1 _ ?j])
            (use i1 j False in \<open>simp_all add: nth_list_update\<close>)
      qed
      then show ?thesis using v1 v2 ns2 by (metis (no_types, lifting))
    qed
    show ?thesis using touch mkdir mv by blast
  qed
  show ?thesis using A B C D E by blast
qed

theorem truncated_names_witness:
  "wf_state init \<and> 31 < length long_x \<and> 31 < length long_y \<and> long_x \<noteq> long_y \<and>
   take 31 long_x = take 31 long_y \<and>
   length (d_files (heap init ! cwd init)) + 2 \<le> MAX_FILES \<and>
   (\<exists>h1 h2. touch_cmd (heap init) (cwd init) (Some long_x) =
               Inr (Ok [''file '' @ quoted long_x @ '' created''], h1) \<and>
             touch_cmd h1 (cwd init) (Some long_y) =
               Inr (Ok [''file '' @ quoted long_y @ '' created''], h2) \<and>
             file_names h2 (cwd init) =
               file_names (heap init) (cwd init) @ [take 31 long_x, take 31 long_x])"
proof -
  have l: "31 < length long_x \<and> 31 < length long_y \<and> long_x \<noteq> long_y \<and>
      take 31 long_x = take 31 long_y"
    by (simp add: long_x_def long_y_def)
  have f: "length (d_files (heap init ! cwd init)) + 2 \<le> MAX_FILES"
    by (simp add: init_def MAX_FILES_def)
  show ?thesis
    using truncated_names[OF wf_init, of _ _ _ _ _ long_x long_y] l f wf_init by blast
qed

section \<open>Further properties\<close>

text \<open>X1. Every state a session reaches is well-formed. A session of \<^verbatim>\<open>L2.c\<close> never
  reads through an invalid pointer and never writes outside an array; a session of
  \<^verbatim>\<open>linux-commands.c\<close> does neither except for the write past \<^verbatim>\<open>parts\<close> in \<^verbatim>\<open>pwd\<close>.\<close>

theorem sessions_well_formed:
  "(run lim cs init = Inl ArrayOverflow \<or>
      (\<exists>outs s. run lim cs init = Inr (outs, s) \<and> wf_state s)) \<and>
   (\<exists>outs s. run_L2 lim cs init = Inr (outs, s) \<and> wf_state s)"
  using run_wf_from[OF wf_init] run_L2_wf_from[OF wf_init] by blast

text \<open>X2. In every well-formed state the walk of \<^verbatim>\<open>pwd\<close> in \<^verbatim>\<open>L2.c\<close> returns with at most
  \<open>MAX_DEPTH\<close> collected names, and \<^verbatim>\<open>pwd\<close> prints one line: \<^verbatim>\<open>/\<close> at the root, the
  rendering of the collected names elsewhere.\<close>

theorem pwd_L2_bounded:
  assumes "wf_state s"
  shows "\<exists>parts. pwd_walk_L2 (heap s) (Some (cwd s)) [] = Inr parts \<and>
           length parts \<le> MAX_DEPTH \<and>
           (pwd_cmd_L2 (heap s) (cwd s) = Inr (Ok [''/'']) \<or>
            pwd_cmd_L2 (heap s) (cwd s) = Inr (Ok [pwd_print parts (length parts)]))"
proof -
  have wf: "wf_heap (heap s)" and c: "cwd s < length (heap s)"
    using assms by (simp_all add: wf_state_def)
  have "\<exists>r. pwd_walk_L2 (heap s) (Some (cwd s)) [] = Inr r \<and> length r \<le> MAX_DEPTH"
    by (rule pwd_walk_L2_total[OF wf]) (use c in simp_all)
  then show ?thesis using c by (auto simp: pwd_cmd_L2_def)
qed

theorem pwd_L2_bounded_witness:
  "wf_state sample_state \<and>
   (\<exists>parts. pwd_walk_L2 (heap sample_state) (Some (cwd sample_state)) [] = Inr parts \<and>
      length parts \<le> MAX_DEPTH) \<and>
   pwd_cmd_L2 (heap sample_state) (cwd sample_state) = Inr (Ok [''/''])"
proof -
  have "pwd_cmd_L2 (heap sample_state) (cwd sample_state) = Inr (Ok [''/''])"
    by code_simp
  then show ?thesis using pwd_L2_bounded[OF wf_sample] wf_sample by blast
qed


end
